theory Spec2Isabelle
  imports Main "HOL-Library.Sublist"
begin

section \<open>Text sources and Python string primitives\<close>

text \<open>
  A readable text source (\<open>doc_file\<close>) is modelled by the characters that have not been
  read yet: \<open>read()\<close> returns all of them, \<open>readline()\<close> returns the first line and
  leaves the rest. Characters are the 256 values of \<^typ>\<open>char\<close>, read as the code
  points below 256; \<open>str.isspace\<close>, \<open>str.lower\<close> and the regular expressions are
  modelled on that range.
\<close>

definition newline :: char where
  "newline = CHR 0x0A"

definition isspace :: "char \<Rightarrow> bool" where
  \<comment> \<open>\<open>str.isspace\<close>: TAB, LF, VT, FF, CR, FS, GS, RS, US, SPACE, NEL, NBSP\<close>
  "isspace c = (let n = (of_char c :: nat) in
     (9 \<le> n \<and> n \<le> 13) \<or> (28 \<le> n \<and> n \<le> 32) \<or> n = 133 \<or> n = 160)"

definition lower_char :: "char \<Rightarrow> char" where
  \<comment> \<open>\<open>str.lower\<close> on one character: A-Z and the Latin-1 capitals move up by 32\<close>
  "lower_char c = (let n = (of_char c :: nat) in
     if (65 \<le> n \<and> n \<le> 90) \<or> (192 \<le> n \<and> n \<le> 222 \<and> n \<noteq> 215)
     then char_of (n + 32) else c)"

definition lower :: "string \<Rightarrow> string" where
  "lower s = map lower_char s"

definition is_az :: "char \<Rightarrow> bool" where
  \<comment> \<open>the character class \<open>[a-z]\<close>\<close>
  "is_az c = (let n = (of_char c :: nat) in 97 \<le> n \<and> n \<le> 122)"

definition strip :: "string \<Rightarrow> string" where
  \<comment> \<open>\<open>str.strip()\<close>: white space removed at both ends\<close>
  "strip s = rev (dropWhile isspace (rev (dropWhile isspace s)))"

fun split_acc :: "string \<Rightarrow> string \<Rightarrow> string list" where
  \<comment> \<open>\<open>str.split()\<close> with the word being read (reversed) as accumulator\<close>
  "split_acc w [] = (if w = [] then [] else [rev w])"
| "split_acc w (c # cs) =
     (if isspace c then (if w = [] then split_acc [] cs else rev w # split_acc [] cs)
      else split_acc (c # w) cs)"

definition str_split :: "string \<Rightarrow> string list" where
  \<comment> \<open>\<open>str.split()\<close>: the maximal runs of characters that are not white space\<close>
  "str_split s = split_acc [] s"

fun join :: "string \<Rightarrow> string list \<Rightarrow> string" where
  \<comment> \<open>\<open>sep.join(tokens)\<close>\<close>
  "join sep [] = []"
| "join sep [t] = t"
| "join sep (t # ts) = t @ sep @ join sep ts"

definition readline :: "string \<Rightarrow> string \<times> string" where
  \<comment> \<open>\<open>doc_file.readline()\<close>: the line with its newline, and the rest; \<open>''''\<close> at the end\<close>
  "readline f = (case dropWhile (\<lambda>c. c \<noteq> newline) f of
       [] \<Rightarrow> (f, [])
     | nl # rest \<Rightarrow> (takeWhile (\<lambda>c. c \<noteq> newline) f @ [nl], rest))"

section \<open>tokenize.py\<close>

definition split :: "string \<Rightarrow> string list" where
  \<comment> \<open>\<open>return doc_file.read().split()\<close>\<close>
  "split doc_file = str_split doc_file"

definition simple :: "string \<Rightarrow> (string \<Rightarrow> string list) \<Rightarrow> string list" where
  "simple doc_file splitter =
     (let tokens = splitter doc_file;
          tokens = map lower tokens;
          tokens = map (filter is_az) tokens;
          tokens = filter (\<lambda>token. token \<noteq> []) tokens
      in tokens)"

function header_loop :: "string \<Rightarrow> string \<Rightarrow> string" where
  \<comment> \<open>\<open>while line.strip(): line = doc_file.readline()\<close>; returns what is left of the file\<close>
  "header_loop line f =
     (if strip line \<noteq> [] then (case readline f of (line', f') \<Rightarrow> header_loop line' f')
      else f)"
  by pat_completeness auto
termination
proof (relation "measure (\<lambda>(line, f). length f + (if strip line = [] then 0 else 1))")
  show "wf (measure (\<lambda>(line :: string, f :: string).
              length f + (if strip line = [] then 0 else 1)))"
    by simp
next
  fix line f line' f' :: string
  assume ne: "strip line \<noteq> []" and p: "(line', f') = readline f"
  show "((line', f'), (line, f))
        \<in> measure (\<lambda>(line, f). length f + (if strip line = [] then 0 else 1))"
  proof (cases "dropWhile (\<lambda>c. c \<noteq> newline) f")
    case Nil
    with p have "line' = f" "f' = []" by (simp_all add: readline_def)
    show ?thesis
    proof (cases "f = []")
      case True
      with \<open>line' = f\<close> \<open>f' = []\<close> ne show ?thesis by (simp add: strip_def)
    next
      case False
      with \<open>f' = []\<close> ne show ?thesis by simp
    qed
  next
    case (Cons nl rest)
    with p have "f' = rest" by (simp add: readline_def)
    have "length (dropWhile (\<lambda>c. c \<noteq> newline) f) \<le> length f"
      by (rule length_dropWhile_le)
    with Cons have "length rest < length f" by simp
    with \<open>f' = rest\<close> ne show ?thesis by simp
  qed
qed

definition news :: "string \<Rightarrow> (string \<Rightarrow> 'r) \<Rightarrow> 'r" where
  \<comment> \<open>the handler of the \<open>try\<close> prints the file and raises again: the result, a token
      list or an error of the tokenizer, is the tokenizer's\<close>
  "news doc_file tokenizer =
     (case readline doc_file of (line, f) \<Rightarrow> tokenizer (header_loop line f))"

definition simple_default :: "string \<Rightarrow> string list" where
  \<comment> \<open>the call \<open>simple(doc_file)\<close>, with \<open>splitter=split\<close>\<close>
  "simple_default doc_file = simple doc_file split"

definition news_default :: "string \<Rightarrow> string list" where
  \<comment> \<open>the call \<open>news(doc_file)\<close>, with \<open>tokenizer=simple\<close>\<close>
  "news_default doc_file = news doc_file simple_default"

function doc_lines :: "string \<Rightarrow> string list" where
  \<comment> \<open>the lines of a source: what successive calls of \<open>readline()\<close> return before
      the end of the input\<close>
  "doc_lines f =
     (if f = [] then [] else (case readline f of (line, f') \<Rightarrow> line # doc_lines f'))"
  by pat_completeness auto
termination
proof (relation "measure length")
  show "wf (measure (length :: string \<Rightarrow> nat))"
    by simp
next
  fix f line f' :: string
  assume ne: "f \<noteq> []" and p: "(line, f') = readline f"
  show "(f', f) \<in> measure length"
  proof (cases "dropWhile (\<lambda>c. c \<noteq> newline) f")
    case Nil
    with p have "f' = []" by (simp add: readline_def)
    with ne show ?thesis by simp
  next
    case (Cons nl rest)
    with p have "f' = rest" by (simp add: readline_def)
    have "length (dropWhile (\<lambda>c. c \<noteq> newline) f) \<le> length f"
      by (rule length_dropWhile_le)
    with Cons have "length rest < length f" by simp
    with \<open>f' = rest\<close> show ?thesis by simp
  qed
qed

subsection \<open>Regular expression substitution\<close>

text \<open>
  A pattern is modelled by its matcher: given the text from a position on, the matcher
  returns the length of the match that starts there, or \<open>None\<close>. The lazy \<open>.*?\<close>
  followed by a literal is the search for the leftmost occurrence of that literal, and
  with the flag \<open>s\<close> the dot matches every character.
\<close>

fun find_at :: "(string \<Rightarrow> bool) \<Rightarrow> string \<Rightarrow> nat option" where
  \<comment> \<open>the leftmost position from which the rest of the text satisfies \<open>P\<close>\<close>
  "find_at P [] = (if P [] then Some 0 else None)"
| "find_at P (c # cs) =
     (if P (c # cs) then Some 0 else map_option Suc (find_at P cs))"

definition ci_prefix :: "string \<Rightarrow> string \<Rightarrow> bool" where
  \<comment> \<open>the literal \<open>p\<close> matches at the start of \<open>s\<close> under the flag \<open>i\<close>\<close>
  "ci_prefix p s = (length p \<le> length s \<and> lower (take (length p) s) = lower p)"

fun re_sub :: "(string \<Rightarrow> nat option) \<Rightarrow> string \<Rightarrow> string \<Rightarrow> string" where
  \<comment> \<open>\<open>re.sub(pattern, repl, text)\<close>: the matches are replaced from left to right, the
      search going on after each match; the patterns here match no empty string, so a
      match takes at least the character \<open>c\<close>\<close>
  "re_sub m repl [] = []"
| "re_sub m repl (c # cs) =
     (case m (c # cs) of
        Some e \<Rightarrow> repl @ re_sub m repl (drop (e - 1) cs)
      | None \<Rightarrow> c # re_sub m repl cs)"

definition close_element :: "nat \<Rightarrow> string \<Rightarrow> nat option" where
  \<comment> \<open>after \<open><script\<close> or \<open><style\<close> (\<open>k\<close> characters): \<open>.*?>.*?(</\1>)\<close>, the group
      being the \<open>k - 1\<close> characters after the \<open><\<close>\<close>
  "close_element k s =
     (case find_at (prefix ''>'') (drop k s) of
        None \<Rightarrow> None
      | Some i \<Rightarrow>
          (let b = k + i + 1 in
           case find_at (ci_prefix (''</'' @ take (k - 1) (drop 1 s) @ ''>'')) (drop b s) of
             None \<Rightarrow> None
           | Some j \<Rightarrow> Some (b + j + (k + 2))))"

definition match_script :: "string \<Rightarrow> nat option" where
  \<comment> \<open>\<open>(?is)<(script|style).*?>.*?(</\1>)\<close>\<close>
  "match_script s =
     (if prefix ''<'' s then
        (if ci_prefix ''script'' (drop 1 s) then close_element 7 s
         else if ci_prefix ''style'' (drop 1 s) then close_element 6 s
         else None)
      else None)"

definition match_comment :: "string \<Rightarrow> nat option" where
  \<comment> \<open>\<open>(?s)<!--(.*?)-->[\n]?\<close>\<close>
  "match_comment s =
     (if prefix ''<!--'' s then
        (case find_at (prefix ''-->'') (drop 4 s) of
           None \<Rightarrow> None
         | Some i \<Rightarrow>
             (let e = 4 + i + 3 in Some (if prefix [newline] (drop e s) then e + 1 else e)))
      else None)"

definition match_tag :: "string \<Rightarrow> nat option" where
  \<comment> \<open>\<open>(?s)<.*?>\<close>\<close>
  "match_tag s =
     (if prefix ''<'' s then
        (case find_at (prefix ''>'') (drop 1 s) of
           None \<Rightarrow> None
         | Some i \<Rightarrow> Some (1 + i + 1))
      else None)"

definition match_literal :: "string \<Rightarrow> string \<Rightarrow> nat option" where
  \<comment> \<open>a pattern without special characters\<close>
  "match_literal lit s = (if prefix lit s then Some (length lit) else None)"

definition html :: "string \<Rightarrow> (string \<Rightarrow> 'r) \<Rightarrow> 'r" where
  \<comment> \<open>\<open>io.StringIO(text)\<close> is a fresh source holding \<open>text\<close>\<close>
  "html doc_file tokenizer =
     (let text = strip doc_file;
          text = re_sub match_script [] text;
          text = re_sub match_comment [] text;
          text = re_sub match_tag '' '' text;
          text = re_sub (match_literal ''&nbsp;'') '' '' text;
          text = re_sub (match_literal ''  '') '' '' text;
          text = re_sub (match_literal ''  '') '' '' text;
          text = strip text
      in tokenizer text)"

definition html_default :: "string \<Rightarrow> string list" where
  \<comment> \<open>the call \<open>html(doc_file)\<close>, with \<open>tokenizer=simple\<close>\<close>
  "html_default doc_file = html doc_file simple_default"

definition re_search :: "(string \<Rightarrow> nat option) \<Rightarrow> string \<Rightarrow> bool" where
  \<comment> \<open>\<open>re.search(pattern, text) is not None\<close>: the pattern matches somewhere\<close>
  "re_search m s = (find_at (\<lambda>t. m t \<noteq> None) s \<noteq> None)"

section \<open>server.py\<close>

text \<open>
  Anchors are Python values built from integers, strings and nested sequences; a list
  (from \<open>json.loads\<close>) and a tuple (from \<open>tuplize\<close>) are both written \<open>PList\<close>. An
  exception is a result \<open>Inl\<close> of the error raised.
\<close>

datatype error = ValueError | TypeError | IndexError

datatype pyval = PInt int | PStr string | PList "pyval list"

record dataset =
  vocab :: "string list"

fun sequence :: "(error + 'a) list \<Rightarrow> error + 'a list" where
  \<comment> \<open>the results of a comprehension, evaluated from left to right: the first error is raised\<close>
  "sequence [] = Inr []"
| "sequence (x # xs) =
     (case x of
        Inl e \<Rightarrow> Inl e
      | Inr v \<Rightarrow> (case sequence xs of Inl e \<Rightarrow> Inl e | Inr vs \<Rightarrow> Inr (v # vs)))"

fun list_index :: "'a list \<Rightarrow> 'a \<Rightarrow> nat option" where
  \<comment> \<open>\<open>xs.index(x)\<close>: the first position of \<open>x\<close>; \<open>None\<close> where Python raises ValueError\<close>
  "list_index [] x = None"
| "list_index (y # ys) x = (if y = x then Some 0 else map_option Suc (list_index ys x))"

fun convert_anchor :: "dataset \<Rightarrow> pyval \<Rightarrow> error + pyval" where
  "convert_anchor dataset (PInt i) = Inr (PInt i)"
| "convert_anchor dataset (PStr t) =
     (case list_index (vocab dataset) t of
        None \<Rightarrow> Inl ValueError
      | Some i \<Rightarrow> Inr (PInt (int i)))"
| "convert_anchor dataset (PList xs) = Inl ValueError"
  \<comment> \<open>the vocabulary holds strings, none of which equals a sequence\<close>

text \<open>
  Modelled from the spec: \<open>ankura.util.tuplize\<close>, which is not part of the sources at
  hand. The spec has nested containers normalised to an immutable ordered form, the
  conversion applied element-wise, and groups not flattened: a sequence becomes the
  sequence of its converted elements, anything else is converted.
\<close>

fun tuplize :: "pyval \<Rightarrow> (pyval \<Rightarrow> error + pyval) \<Rightarrow> error + pyval" where
  "tuplize (PList xs) conversion =
     (case sequence (map (\<lambda>x. tuplize x conversion) xs) of
        Inl e \<Rightarrow> Inl e
      | Inr ys \<Rightarrow> Inr (PList ys))"
| "tuplize (PInt i) conversion = conversion (PInt i)"
| "tuplize (PStr t) conversion = conversion (PStr t)"

definition reindex_anchors :: "dataset \<Rightarrow> pyval \<Rightarrow> error + pyval" where
  "reindex_anchors dataset anchors = tuplize anchors (\<lambda>t. convert_anchor dataset t)"

fun vocab_get :: "string list \<Rightarrow> pyval \<Rightarrow> error + string" where
  \<comment> \<open>\<open>dataset.vocab[token]\<close>: a negative index counts from the end\<close>
  "vocab_get v (PInt i) =
     (if 0 \<le> i \<and> i < int (length v) then Inr (v ! nat i)
      else if - int (length v) \<le> i \<and> i < 0 then Inr (v ! nat (int (length v) + i))
      else Inl IndexError)"
| "vocab_get v (PStr t) = Inl TypeError"
| "vocab_get v (PList xs) = Inl TypeError"

fun iterate :: "pyval \<Rightarrow> error + pyval list" where
  \<comment> \<open>\<open>for x in value\<close>: the elements of a sequence, the characters of a string\<close>
  "iterate (PList xs) = Inr xs"
| "iterate (PStr t) = Inr (map (\<lambda>c. PStr [c]) t)"
| "iterate (PInt i) = Inl TypeError"

definition tokenify_anchors :: "dataset \<Rightarrow> pyval \<Rightarrow> error + string list list" where
  "tokenify_anchors dataset anchors =
     (case iterate anchors of
        Inl e \<Rightarrow> Inl e
      | Inr as \<Rightarrow>
          sequence (map (\<lambda>anchor.
            case iterate anchor of
              Inl e \<Rightarrow> Inl e
            | Inr tokens \<Rightarrow> sequence (map (\<lambda>token. vocab_get (vocab dataset) token) tokens)) as))"

definition token_anchors :: "string list list \<Rightarrow> pyval" where
  \<comment> \<open>a list of anchors in token form, each anchor a group of terms\<close>
  "token_anchors groups = PList (map (\<lambda>group. PList (map PStr group)) groups)"

subsection \<open>The topic request\<close>

text \<open>
  The topic matrix is a two-dimensional array: its shape and its entries. The weights
  are of any linearly ordered type (floating-point numbers without NaN are one).
\<close>

record 'w matrix =
  nrows :: nat
  ncols :: nat
  entry :: "nat \<Rightarrow> nat \<Rightarrow> 'w"

definition column :: "'w matrix \<Rightarrow> nat \<Rightarrow> 'w list" where
  \<comment> \<open>\<open>topics[:, k]\<close>\<close>
  "column m k = map (\<lambda>i. entry m i k) [0..<nrows m]"

text \<open>
  What \<open>topic_request\<close> takes from outside \<open>server.py\<close>: the values that the cached
  builders \<open>get_newsgroups()\<close> and \<open>default_anchors()\<close> return (memoisation does not
  change the value returned), topic recovery (\<open>get_topics\<close> is its memoised form),
  \<open>numpy.argsort\<close> and \<open>json.loads\<close>.
\<close>

record 'w services =
  newsgroups :: dataset
  base_anchors :: pyval
  recover_topics :: "dataset \<Rightarrow> pyval \<Rightarrow> 'w matrix"
  argsort :: "'w list \<Rightarrow> nat list"
  json_loads :: "string \<Rightarrow> error + pyval"

record response =
  resp_topics :: "string list list"
  resp_anchors :: "string list list option"

definition request_anchors :: "'w services \<Rightarrow> string option \<Rightarrow> error + pyval" where
  \<comment> \<open>lines 85 to 89: the anchors of the request, as indices\<close>
  "request_anchors lib raw_anchors =
     (case (case raw_anchors of
              None \<Rightarrow> Inr (base_anchors lib)
            | Some raw \<Rightarrow>
                (case json_loads lib raw of Inl e \<Rightarrow> Inl e | Inr v \<Rightarrow> tuplize v Inr)) of
        Inl e \<Rightarrow> Inl e
      | Inr anchors \<Rightarrow> reindex_anchors (newsgroups lib) anchors)"

definition top_words :: "'w services \<Rightarrow> 'w matrix \<Rightarrow> nat \<Rightarrow> nat list" where
  \<comment> \<open>\<open>numpy.argsort(topics[:, k])[-10:][::-1]\<close>\<close>
  "top_words lib topics k =
     (let order = argsort lib (column topics k)
      in rev (drop (length order - 10) order))"

definition summary :: "'w services \<Rightarrow> 'w matrix \<Rightarrow> nat \<Rightarrow> error + string list" where
  \<comment> \<open>lines 94 to 96: the summary of topic \<open>k\<close>\<close>
  "summary lib topics k =
     sequence (map (\<lambda>word. vocab_get (vocab (newsgroups lib)) (PInt (int word)))
                 (top_words lib topics k))"

definition topic_request :: "'w services \<Rightarrow> string option \<Rightarrow> error + response" where
  "topic_request lib raw_anchors =
     (let dataset = newsgroups lib in
      case request_anchors lib raw_anchors of
        Inl e \<Rightarrow> Inl e
      | Inr anchors \<Rightarrow>
          (let topics = recover_topics lib dataset anchors in
           case sequence (map (summary lib topics) [0..<ncols topics]) of
             Inl e \<Rightarrow> Inl e
           | Inr topic_summary \<Rightarrow>
               (case raw_anchors of
                  None \<Rightarrow>
                    (case tokenify_anchors dataset anchors of
                       Inl e \<Rightarrow> Inl e
                     | Inr tokens \<Rightarrow>
                         Inr \<lparr>resp_topics = topic_summary, resp_anchors = Some tokens\<rparr>)
                | Some raw \<Rightarrow>
                    Inr \<lparr>resp_topics = topic_summary, resp_anchors = None\<rparr>)))"

text \<open>
  The contracts of \<open>numpy.argsort\<close> and of topic recovery, as the theorems on the topic
  request assume them: \<open>argsort\<close> returns the positions of its argument ordered by
  non-decreasing value, with no promise on the order of equal values; the topic matrix
  has a row for each term of the vocabulary and a column for each anchor. A stable
  \<open>argsort\<close> moreover leaves positions of equal value in increasing order.
\<close>

definition argsort_contract :: "('w::linorder list \<Rightarrow> nat list) \<Rightarrow> bool" where
  "argsort_contract f =
     (\<forall>xs. distinct (f xs) \<and> set (f xs) = {..<length xs}
          \<and> sorted (map (\<lambda>i. xs ! i) (f xs)))"

definition argsort_stable :: "('w::linorder list \<Rightarrow> nat list) \<Rightarrow> bool" where
  "argsort_stable f =
     (\<forall>xs a b. a < b \<and> b < length (f xs) \<and> xs ! (f xs ! a) = xs ! (f xs ! b)
          \<longrightarrow> f xs ! a < f xs ! b)"

definition topics_contract :: "'w services \<Rightarrow> bool" where
  "topics_contract lib =
     (\<forall>anchors.
        nrows (recover_topics lib (newsgroups lib) anchors) = length (vocab (newsgroups lib))
      \<and> (\<forall>as. anchors = PList as \<longrightarrow>
             ncols (recover_topics lib (newsgroups lib) anchors) = length as))"

text \<open>
  A library to run requests on: three terms, default anchors \<open>a\<close> and \<open>c\<close>, one topic
  column for each anchor with integer weights, a stable sort as \<open>argsort\<close>, and a
  reader of two JSON texts.
\<close>

definition stable_argsort :: "'w::linorder list \<Rightarrow> nat list" where
  "stable_argsort xs = sort_key (\<lambda>i. xs ! i) [0..<length xs]"

definition sample_services :: "int services" where
  "sample_services =
     \<lparr>newsgroups = \<lparr>vocab = [''a'', ''b'', ''c'']\<rparr>,
      base_anchors = PList [PList [PInt 0], PList [PInt 2]],
      recover_topics = (\<lambda>dataset anchors.
         \<lparr>nrows = length (vocab dataset),
          ncols = (case anchors of PList as \<Rightarrow> length as | _ \<Rightarrow> 0),
          entry = (\<lambda>i k. int ((2 * i + 3 * k) mod 4))\<rparr>),
      argsort = stable_argsort,
      json_loads = (\<lambda>raw.
         if raw = ''[[1]]'' then Inr (PList [PList [PInt 1]])
         else if raw = ''[3]'' then Inr (PList [PInt 3])
         else Inl ValueError)\<rparr>"

text \<open>
  A second library, with twelve terms, so that a summary is cut to ten, weights that
  repeat, and a reader of the JSON text of two anchors, a term and an index.
\<close>

definition dq :: char where
  \<comment> \<open>the double quote\<close>
  "dq = CHR 0x22"

definition wide_services :: "int services" where
  "wide_services =
     \<lparr>newsgroups = \<lparr>vocab = [''a'', ''b'', ''c'', ''d'', ''e'', ''f'', ''g'', ''h'', ''i'',
                              ''j'', ''k'', ''l'']\<rparr>,
      base_anchors = PList [PList [PInt 0]],
      recover_topics = (\<lambda>dataset anchors.
         \<lparr>nrows = length (vocab dataset),
          ncols = (case anchors of PList as \<Rightarrow> length as | _ \<Rightarrow> 0),
          entry = (\<lambda>i k. int ((i + 3 * k) mod 4))\<rparr>),
      argsort = stable_argsort,
      json_loads = (\<lambda>raw.
         if raw = ''[['' @ [dq] @ ''b'' @ [dq] @ ''], [11]]''
         then Inr (PList [PList [PStr ''b''], PList [PInt 11]])
         else Inl ValueError)\<rparr>"

subsection \<open>The two cache levels\<close>

text \<open>
  Modelled from the spec: the decorators \<open>ankura.util.memoize\<close> and
  \<open>ankura.util.pickle_cache\<close>, which are not part of the sources at hand. The spec has
  argument memoisation look the argument list up in a cache of the process, return the
  stored result on a hit and otherwise call the function, store the result and return
  it; it has persistent caching return the contents of the durable storage under a fixed
  name when they exist and are readable, and otherwise call the builder, write its
  result under that name and return it.

  The state is the caches of the process (one for each memoised function, named after
  it), the durable storage by name (\<open>None\<close>: nothing readable there), and a log with an
  entry for every time the persistent level is consulted. A decorated function takes
  the state and returns its result with the new state.
\<close>

record 'v world =
  memo :: "string \<Rightarrow> pyval list \<Rightarrow> 'v option"
  store :: "string \<Rightarrow> 'v option"
  touched :: "string list"

type_synonym 'v builder = "pyval list \<Rightarrow> 'v world \<Rightarrow> 'v \<times> 'v world"

definition memoize :: "string \<Rightarrow> 'v builder \<Rightarrow> 'v builder" where
  "memoize name f args w =
     (case memo w name args of
        Some v \<Rightarrow> (v, w)
      | None \<Rightarrow>
          (case f args w of
             (v, w') \<Rightarrow> (v, w'\<lparr>memo := (memo w')(name := (memo w' name)(args \<mapsto> v))\<rparr>)))"

definition pickle_cache :: "string \<Rightarrow> 'v builder \<Rightarrow> 'v builder" where
  "pickle_cache path g args w =
     (let w = w\<lparr>touched := touched w @ [path]\<rparr> in
      case store w path of
        Some v \<Rightarrow> (v, w)
      | None \<Rightarrow>
          (case g args w of
             (v, w') \<Rightarrow> (v, w'\<lparr>store := (store w')(path \<mapsto> v)\<rparr>)))"

text \<open>
  The two builders of \<open>server.py\<close> under both decorators, \<open>memoize\<close> above
  \<open>pickle_cache\<close> as in the source. The corpus that \<open>ankura.run_pipeline\<close> builds and the
  anchor selection \<open>ankura.gramschmidt_anchors\<close> are parameters.
\<close>

datatype cached = Corpus dataset | Anchors pyval

definition get_newsgroups :: "dataset \<Rightarrow> cached builder" where
  "get_newsgroups run_pipeline =
     memoize ''get_newsgroups''
       (pickle_cache ''fcc.pickle''
          (\<lambda>args w. (Corpus run_pipeline, w)))"

definition default_anchors ::
    "dataset \<Rightarrow> (cached \<Rightarrow> int \<Rightarrow> int \<Rightarrow> pyval) \<Rightarrow> cached builder" where
  "default_anchors run_pipeline gramschmidt_anchors =
     memoize ''default_anchors''
       (pickle_cache ''fcc-anchors-default.pickle''
          (\<lambda>args w.
             case get_newsgroups run_pipeline [] w of
               (dataset, w') \<Rightarrow> (Anchors (gramschmidt_anchors dataset 20 500), w')))"

fun run_calls :: "'v builder \<Rightarrow> pyval list list \<Rightarrow> 'v world \<Rightarrow> 'v world" where
  \<comment> \<open>successive calls of one function in a process, with the given argument lists\<close>
  "run_calls f [] w = w"
| "run_calls f (args # rest) w = run_calls f rest (snd (f args w))"

datatype call = GetNewsgroups | DefaultAnchors

fun serve ::
    "dataset \<Rightarrow> (cached \<Rightarrow> int \<Rightarrow> int \<Rightarrow> pyval) \<Rightarrow> call list \<Rightarrow> cached world \<Rightarrow> cached world"
  where
  \<comment> \<open>the calls of the two builders that a process makes, in any order\<close>
  "serve rp gs [] w = w"
| "serve rp gs (GetNewsgroups # rest) w = serve rp gs rest (snd (get_newsgroups rp [] w))"
| "serve rp gs (DefaultAnchors # rest) w = serve rp gs rest (snd (default_anchors rp gs [] w))"

definition keeps :: "string \<Rightarrow> string \<Rightarrow> 'v builder \<Rightarrow> bool" where
  \<comment> \<open>the function under the decorators leaves alone the cache and the storage of its
      own decorators: it drops no entry of the one and does not consult the other\<close>
  "keeps name path g =
     (\<forall>args w. dom (memo w name) \<subseteq> dom (memo (snd (g args w)) name)
            \<and> count_list (touched (snd (g args w))) path = count_list (touched w) path)"

definition fresh :: "(string \<Rightarrow> 'v option) \<Rightarrow> 'v world" where
  \<comment> \<open>the state at the start of a process, over a given durable storage\<close>
  "fresh disk = \<lparr>memo = (\<lambda>name. Map.empty), store = disk, touched = []\<rparr>"

definition once :: "cached world \<Rightarrow> bool" where
  \<comment> \<open>each of the two files was consulted at most once, and not at all while the cache of
      the process has no entry for its builder\<close>
  "once w =
     (count_list (touched w) ''fcc.pickle'' \<le> 1
      \<and> (memo w ''get_newsgroups'' [] = None \<longrightarrow> count_list (touched w) ''fcc.pickle'' = 0)
      \<and> count_list (touched w) ''fcc-anchors-default.pickle'' \<le> 1
      \<and> (memo w ''default_anchors'' [] = None
           \<longrightarrow> count_list (touched w) ''fcc-anchors-default.pickle'' = 0))"

section \<open>Properties of the tokenizers\<close>

lemma is_az_not_space: "is_az c \<Longrightarrow> \<not> isspace c"
  by (simp add: is_az_def isspace_def Let_def)

lemma is_az_lower: "is_az c \<Longrightarrow> lower_char c = c"
  by (simp add: is_az_def lower_char_def Let_def)

lemma simple_tokens:
  assumes "t \<in> set (simple doc_file splitter)"
  shows "t \<noteq> [] \<and> (\<forall>c \<in> set t. is_az c)"
  using assms by (auto simp: simple_def Let_def)

text \<open>
  C10. Whatever the splitter returns, every token that \<open>simple\<close> returns is a non-empty
  string of characters in a-z.
\<close>

theorem simple_tokens_lowercase_nonempty:
  "\<forall>t \<in> set (simple doc_file splitter). t \<noteq> [] \<and> (\<forall>c \<in> set t. is_az c)"
  using simple_tokens by blast

theorem simple_tokens_lowercase_nonempty_witness:
  "simple ''Ab1 2 c-D'' split = [''ab'', ''cd'']
   \<and> ''cd'' \<noteq> [] \<and> is_az (CHR ''c'') \<and> is_az (CHR ''d'')"
proof -
  have run: "simple ''Ab1 2 c-D'' split = [''ab'', ''cd'']" by code_simp
  then have "''cd'' \<in> set (simple ''Ab1 2 c-D'' split)" by simp
  with simple_tokens_lowercase_nonempty [of "''Ab1 2 c-D''" split]
  have "''cd'' \<noteq> [] \<and> (\<forall>c \<in> set ''cd''. is_az c)" by blast
  with run show ?thesis by simp
qed

declare header_loop.simps [simp del] doc_lines.simps [simp del]

lemma split_acc_word:
  "\<forall>c \<in> set t. \<not> isspace c \<Longrightarrow> split_acc w (t @ r) = split_acc (rev t @ w) r"
  by (induction t arbitrary: w) simp_all

lemma split_acc_leading:
  "\<forall>c \<in> set ws. isspace c \<Longrightarrow> split_acc [] (ws @ s) = split_acc [] s"
  by (induction ws) simp_all

lemma split_acc_separator:
  assumes "sep \<noteq> []" and "\<forall>c \<in> set sep. isspace c" and "w \<noteq> []"
  shows "split_acc w (sep @ r) = rev w # split_acc [] r"
proof (cases sep)
  case Nil
  with assms(1) show ?thesis by simp
next
  case (Cons c cs)
  with assms(2) have c: "isspace c" and cs: "\<forall>c \<in> set cs. isspace c" by simp_all
  from cs have "split_acc [] (cs @ r) = split_acc [] r" by (rule split_acc_leading)
  with Cons c assms(3) show ?thesis by simp
qed

lemma split_join:
  "sep \<noteq> [] \<Longrightarrow> \<forall>c \<in> set sep. isspace c
   \<Longrightarrow> \<forall>t \<in> set ts. t \<noteq> [] \<and> (\<forall>c \<in> set t. \<not> isspace c)
   \<Longrightarrow> split_acc [] (join sep ts) = ts"
proof (induction sep ts rule: join.induct)
  case (1 sep)
  show ?case by simp
next
  case (2 sep t)
  then have "split_acc [] (t @ []) = split_acc (rev t @ []) []"
    by (intro split_acc_word) simp
  with 2 show ?case by simp
next
  case (3 sep t u us)
  then have t: "t \<noteq> []" "\<forall>c \<in> set t. \<not> isspace c" by simp_all
  from t(1) have w: "rev t \<noteq> []" by simp
  have "split_acc [] (t @ sep @ join sep (u # us))
        = split_acc (rev t @ []) (sep @ join sep (u # us))"
    using t(2) by (rule split_acc_word)
  also have "\<dots> = t # split_acc [] (join sep (u # us))"
    using split_acc_separator [OF "3.prems"(1,2) w, of "join sep (u # us)"] by simp
  also have "split_acc [] (join sep (u # us)) = u # us"
    using 3 by simp
  finally show ?case by simp
qed

lemma simple_fixed:
  assumes "\<forall>t \<in> set ts. t \<noteq> [] \<and> (\<forall>c \<in> set t. is_az c)"
  shows "filter (\<lambda>token. token \<noteq> []) (map (filter is_az) (map lower ts)) = ts"
proof -
  have l: "map lower ts = ts"
    using assms by (intro map_idI) (simp add: lower_def is_az_lower map_idI)
  have f: "map (filter is_az) ts = ts"
    using assms by (intro map_idI) simp
  have "filter (\<lambda>token. token \<noteq> []) ts = ts"
    using assms by simp
  with l f show ?thesis by simp
qed

text \<open>
  C6. \<open>simple\<close> is idempotent: the tokens of a first run (with any splitter), joined
  by white space (any non-empty separator of white space characters) and tokenized
  again by \<open>simple\<close> with the splitter \<open>split\<close>, are those of the first run.
\<close>

theorem simple_idempotent:
  assumes "sep \<noteq> []" and "\<forall>c \<in> set sep. isspace c"
  shows "simple (join sep (simple doc_file splitter)) split = simple doc_file splitter"
proof -
  let ?ts = "simple doc_file splitter"
  have az: "\<forall>t \<in> set ?ts. t \<noteq> [] \<and> (\<forall>c \<in> set t. is_az c)"
    using simple_tokens by blast
  then have "\<forall>t \<in> set ?ts. t \<noteq> [] \<and> (\<forall>c \<in> set t. \<not> isspace c)"
    using is_az_not_space by blast
  then have "split (join sep ?ts) = ?ts"
    using split_join [OF assms] by (simp add: split_def str_split_def)
  then have "simple (join sep ?ts) split
             = filter (\<lambda>token. token \<noteq> []) (map (filter is_az) (map lower ?ts))"
    by (simp add: simple_def)
  with simple_fixed [OF az] show ?thesis by simp
qed

theorem simple_idempotent_witness:
  "'' '' \<noteq> [] \<and> isspace (CHR '' '')
   \<and> simple ''Ab1 2 c-D'' split = [''ab'', ''cd'']
   \<and> join '' '' [''ab'', ''cd''] = ''ab cd''
   \<and> simple ''ab cd'' split = [''ab'', ''cd'']"
proof -
  have sp: "isspace (CHR '' '')" by (simp add: isspace_def)
  then have h: "\<forall>c \<in> set '' ''. isspace c" by simp
  have run: "simple ''Ab1 2 c-D'' split = [''ab'', ''cd'']" by code_simp
  have j: "join '' '' [''ab'', ''cd''] = ''ab cd''" by simp
  from simple_idempotent [of "'' ''" "''Ab1 2 c-D''" split] h
  have "simple (join '' '' (simple ''Ab1 2 c-D'' split)) split = simple ''Ab1 2 c-D'' split"
    by simp
  with run j have "simple ''ab cd'' split = [''ab'', ''cd'']" by simp
  with sp run j show ?thesis by simp
qed

lemma strip_Nil_iff: "strip s = [] \<longleftrightarrow> (\<forall>c \<in> set s. isspace c)"
proof -
  have "(\<forall>c \<in> set (dropWhile isspace s). isspace c) \<longleftrightarrow> (\<forall>c \<in> set s. isspace c)"
    by (induction s) auto
  then show ?thesis by (simp add: strip_def dropWhile_eq_Nil_conv)
qed

lemma readline_append: "fst (readline f) @ snd (readline f) = f"
proof (cases "dropWhile (\<lambda>c. c \<noteq> newline) f")
  case Nil
  then show ?thesis by (simp only: readline_def list.case fst_conv snd_conv append_Nil2)
next
  case (Cons nl rest)
  have "takeWhile (\<lambda>c. c \<noteq> newline) f @ dropWhile (\<lambda>c. c \<noteq> newline) f = f"
    by (rule takeWhile_dropWhile_id)
  with Cons show ?thesis by (simp add: readline_def)
qed

lemma news_blank:
  assumes "strip (fst (readline doc_file)) = []"
  shows "news doc_file tokenizer = tokenizer (snd (readline doc_file))"
proof -
  obtain line f where r: "readline doc_file = (line, f)" by (cases "readline doc_file")
  with assms have "header_loop line f = f" by (simp add: header_loop.simps)
  with r show ?thesis by (simp add: news_def)
qed

lemma split_leading:
  "\<forall>c \<in> set ws. isspace c \<Longrightarrow> split (ws @ s) = split s"
  by (simp add: split_def str_split_def split_acc_leading)

lemma simple_default_leading:
  "\<forall>c \<in> set ws. isspace c \<Longrightarrow> simple_default (ws @ s) = simple_default s"
  by (simp add: simple_default_def simple_def split_leading)

lemma html_default_leading:
  assumes "\<forall>c \<in> set ws. isspace c"
  shows "html_default (ws @ s) = html_default s"
proof -
  from assms have "dropWhile isspace (ws @ s) = dropWhile isspace s"
    by (simp add: dropWhile_append2)
  then have "strip (ws @ s) = strip s" by (simp add: strip_def)
  then show ?thesis by (simp add: html_default_def html_def)
qed

text \<open>
  C7, as stated, fails: the inner tokenizer receives the document without its first
  line, and a tokenizer that looks at line structure sees the difference. With \<open>news\<close>
  itself as inner tokenizer, the document of a blank line, the line \<open>header\<close>, a blank
  line and the line \<open>body\<close> gives \<open>body\<close>, while the inner tokenizer over the whole
  document gives \<open>header\<close> and \<open>body\<close>.
\<close>

theorem news_blank_first_line_counterexample:
  "strip (fst (readline (newline # ''header'' @ [newline, newline] @ ''body''))) = []
   \<and> news (newline # ''header'' @ [newline, newline] @ ''body'') news_default = [''body'']
   \<and> news_default (newline # ''header'' @ [newline, newline] @ ''body'')
       = [''header'', ''body'']"
  by code_simp

text \<open>
  C7, amended. For every document whose first line is blank, \<open>news\<close> returns what its
  inner tokenizer returns on the document without that line; for every inner tokenizer
  that ignores white space at the start of its input, as \<open>simple\<close> (the default),
  \<open>split\<close> and \<open>html\<close> do, this is what the inner tokenizer returns on the whole
  document.
\<close>

theorem news_blank_first_line:
  assumes "strip (fst (readline doc_file)) = []"
  shows "news doc_file tokenizer = tokenizer (snd (readline doc_file))
       \<and> ((\<forall>ws s. (\<forall>c \<in> set ws. isspace c) \<longrightarrow> tokenizer (ws @ s) = tokenizer s)
            \<longrightarrow> news doc_file tokenizer = tokenizer doc_file)
       \<and> news doc_file simple_default = simple_default doc_file
       \<and> news doc_file split = split doc_file
       \<and> news doc_file html_default = html_default doc_file"
proof -
  let ?l = "fst (readline doc_file)" and ?r = "snd (readline doc_file)"
  from assms have ws: "\<forall>c \<in> set ?l. isspace c" by (simp add: strip_Nil_iff)
  have doc: "?l @ ?r = doc_file" by (rule readline_append)
  have 1: "news doc_file tokenizer = tokenizer ?r"
    using assms by (rule news_blank)
  have 2: "news doc_file tokenizer = tokenizer doc_file"
    if "\<forall>ws s. (\<forall>c \<in> set ws. isspace c) \<longrightarrow> tokenizer (ws @ s) = tokenizer s"
  proof -
    from that ws have "tokenizer (?l @ ?r) = tokenizer ?r" by blast
    with doc 1 show ?thesis by simp
  qed
  have 3: "news doc_file simple_default = simple_default doc_file"
    using simple_default_leading [OF ws, of ?r] doc news_blank [OF assms, of simple_default]
    by simp
  have 4: "news doc_file split = split doc_file"
    using split_leading [OF ws, of ?r] doc news_blank [OF assms, of split] by simp
  have 5: "news doc_file html_default = html_default doc_file"
    using html_default_leading [OF ws, of ?r] doc news_blank [OF assms, of html_default]
    by simp
  from 1 2 3 4 5 show ?thesis by blast
qed

theorem news_blank_first_line_witness:
  "strip (fst (readline ('' '' @ [newline] @ ''To: you'' @ [newline] @ ''Hi 5''))) = []
   \<and> news ('' '' @ [newline] @ ''To: you'' @ [newline] @ ''Hi 5'') simple_default
       = [''to'', ''you'', ''hi'']
   \<and> simple_default ('' '' @ [newline] @ ''To: you'' @ [newline] @ ''Hi 5'')
       = [''to'', ''you'', ''hi'']"
proof -
  let ?d = "'' '' @ [newline] @ ''To: you'' @ [newline] @ ''Hi 5''"
  have h: "strip (fst (readline ?d)) = []" by code_simp
  have v: "simple_default ?d = [''to'', ''you'', ''hi'']" by code_simp
  from news_blank_first_line [OF h, of simple_default]
  have n: "news ?d simple_default = simple_default ?d" by blast
  show ?thesis by (intro conjI) (simp_all only: h v n)
qed

lemma header_loop_consumes:
  "\<forall>l \<in> set (doc_lines f). strip l \<noteq> []
   \<Longrightarrow> header_loop (fst (readline f)) (snd (readline f)) = []"
proof (induction f rule: doc_lines.induct)
  case (1 f)
  show ?case
  proof (cases "f = []")
    case True
    then show ?thesis by (simp add: readline_def header_loop.simps strip_def)
  next
    case False
    obtain line f' where r: "readline f = (line, f')" by (cases "readline f")
    with False have dl: "doc_lines f = line # doc_lines f'"
      by (simp add: doc_lines.simps)
    with "1.prems" have ne: "strip line \<noteq> []" and rest: "\<forall>l \<in> set (doc_lines f'). strip l \<noteq> []"
      by simp_all
    from "1.IH" [OF False r [symmetric] rest]
    have "header_loop (fst (readline f')) (snd (readline f')) = []" .
    with ne r show ?thesis
      by (cases "readline f'") (simp add: header_loop.simps [of line f'])
  qed
qed

lemma news_consumes:
  assumes "\<forall>l \<in> set (doc_lines doc_file). strip l \<noteq> []"
  shows "news doc_file tokenizer = tokenizer []"
proof -
  have "header_loop (fst (readline doc_file)) (snd (readline doc_file)) = []"
    using assms by (rule header_loop_consumes)
  then show ?thesis by (cases "readline doc_file") (simp add: news_def)
qed

text \<open>
  C9. For a document with no blank line, that is, every line of which has a character
  that is not white space, the header scan of \<open>news\<close> reaches the end of the input and
  the inner tokenizer is run on the empty rest: \<open>news\<close> with its default tokenizer
  \<open>simple\<close> (over \<open>split\<close>) returns the empty token sequence, as it does with each of
  the other tokenizers of the module inside. The functions are total: no error arises.
\<close>

theorem news_no_blank_line:
  assumes "\<forall>l \<in> set (doc_lines doc_file). strip l \<noteq> []"
  shows "news doc_file tokenizer = tokenizer []
       \<and> news_default doc_file = []
       \<and> news doc_file split = []
       \<and> news doc_file html_default = []
       \<and> news doc_file news_default = []"
proof -
  have s: "simple_default [] = []"
    by (simp add: simple_default_def simple_def split_def str_split_def)
  have p: "split [] = []" by (simp add: split_def str_split_def)
  have h: "html_default [] = []"
    using s by (simp add: html_default_def html_def strip_def)
  have "readline [] = ([], [])" by (simp add: readline_def)
  then have n: "news_default [] = []"
    using s by (simp add: news_default_def news_def header_loop.simps [of "[]" "[]"] strip_def)
  show ?thesis
    using news_consumes [OF assms, of tokenizer] news_consumes [OF assms, of simple_default]
      news_consumes [OF assms, of split] news_consumes [OF assms, of html_default]
      news_consumes [OF assms, of news_default] s p h n
    by (simp add: news_default_def)
qed

theorem news_no_blank_line_witness:
  "doc_lines (''From: me'' @ [newline] @ ''Hello world'')
     = [''From: me'' @ [newline], ''Hello world'']
   \<and> strip (''From: me'' @ [newline]) \<noteq> [] \<and> strip ''Hello world'' \<noteq> []
   \<and> news_default (''From: me'' @ [newline] @ ''Hello world'') = []"
proof -
  let ?d = "''From: me'' @ [newline] @ ''Hello world''"
  have l: "doc_lines ?d = [''From: me'' @ [newline], ''Hello world'']" by code_simp
  have s1: "strip (''From: me'' @ [newline]) \<noteq> []" by code_simp
  have s2: "strip ''Hello world'' \<noteq> []" by code_simp
  from l s1 s2 have h: "\<forall>l \<in> set (doc_lines ?d). strip l \<noteq> []" by simp
  from news_no_blank_line [OF h, of id]
  have n: "news_default ?d = []" by blast
  show ?thesis by (intro conjI) (simp_all only: l s1 s2 n not_False_eq_True)
qed

lemma find_at_None_iff: "find_at P s = None \<longleftrightarrow> (\<forall>t. suffix t s \<longrightarrow> \<not> P t)"
  by (induction s) (auto simp: suffix_Cons)

lemma re_search_iff: "re_search m s \<longleftrightarrow> (\<exists>t. suffix t s \<and> m t \<noteq> None)"
  using find_at_None_iff [of "\<lambda>t. m t \<noteq> None" s] by (auto simp: re_search_def)

lemma re_sub_no_match: "\<not> re_search m s \<Longrightarrow> re_sub m repl s = s"
proof (induction s)
  case Nil
  show ?case by simp
next
  case (Cons c cs)
  from Cons.prems have here: "m (c # cs) = None" and rest: "\<not> re_search m cs"
    by (auto simp: re_search_iff suffix_Cons)
  with Cons.IH show ?case by simp
qed

lemma gt_after_drop:
  assumes "find_at (prefix ''>'') (drop k s) \<noteq> None" and "1 \<le> k"
  shows "find_at (prefix ''>'') (drop 1 s) \<noteq> None"
proof -
  from assms(1) obtain t where t: "suffix t (drop k s)" "prefix ''>'' t"
    by (auto simp: find_at_None_iff)
  from assms(2) have "drop k s = drop (k - 1) (drop 1 s)" by simp
  then have "suffix (drop k s) (drop 1 s)" by (metis suffix_drop)
  with t(1) have "suffix t (drop 1 s)" by (rule suffix_order.trans)
  with t(2) show ?thesis by (auto simp: find_at_None_iff)
qed

lemma match_tag_iff:
  "match_tag s \<noteq> None \<longleftrightarrow> prefix ''<'' s \<and> find_at (prefix ''>'') (drop 1 s) \<noteq> None"
  by (auto simp: match_tag_def split: option.splits)

lemma match_script_tag: "match_script s \<noteq> None \<Longrightarrow> match_tag s \<noteq> None"
proof -
  assume m: "match_script s \<noteq> None"
  then have lt: "prefix ''<'' s" by (auto simp: match_script_def split: if_splits)
  from m obtain k where k: "close_element k s \<noteq> None" "1 \<le> k"
    by (auto simp: match_script_def split: if_splits)
  then have "find_at (prefix ''>'') (drop k s) \<noteq> None"
    by (auto simp: close_element_def split: option.splits)
  with k(2) have "find_at (prefix ''>'') (drop 1 s) \<noteq> None" by (rule gt_after_drop [rotated])
  with lt show ?thesis unfolding match_tag_iff by blast
qed

lemma match_comment_tag: "match_comment s \<noteq> None \<Longrightarrow> match_tag s \<noteq> None"
proof -
  assume m: "match_comment s \<noteq> None"
  then have p: "prefix ''<!--'' s" by (auto simp: match_comment_def split: if_splits)
  then have lt: "prefix ''<'' s" by (auto simp: prefix_def)
  from m have "find_at (prefix ''-->'') (drop 4 s) \<noteq> None"
    by (auto simp: match_comment_def split: if_splits option.splits)
  then obtain t where t: "suffix t (drop 4 s)" "prefix ''-->'' t"
    by (auto simp: find_at_None_iff)
  from t(2) obtain u where u: "t = ''--'' @ CHR ''>'' # u" by (auto simp: prefix_def)
  then have "suffix (CHR ''>'' # u) t" by (simp add: suffix_def)
  with t(1) have "suffix (CHR ''>'' # u) (drop 4 s)" by (rule suffix_order.trans [rotated])
  then have "find_at (prefix ''>'') (drop 4 s) \<noteq> None"
    by (auto simp: find_at_None_iff)
  then have "find_at (prefix ''>'') (drop 1 s) \<noteq> None" by (rule gt_after_drop) simp
  with lt show ?thesis unfolding match_tag_iff by blast
qed

lemma re_search_mono:
  "(\<And>t. m t \<noteq> None \<Longrightarrow> m' t \<noteq> None) \<Longrightarrow> re_search m s \<Longrightarrow> re_search m' s"
  by (auto simp: re_search_iff)

lemma strip_decompose:
  obtains a b where "s = a @ strip s @ b" "\<forall>c \<in> set a. isspace c" "\<forall>c \<in> set b. isspace c"
proof
  let ?d = "dropWhile isspace s"
  let ?a = "takeWhile isspace s" and ?b = "rev (takeWhile isspace (rev ?d))"
  have "?d = rev (dropWhile isspace (rev ?d)) @ ?b"
    by (metis rev_append rev_rev_ident takeWhile_dropWhile_id)
  then have "?d = strip s @ ?b" by (simp only: strip_def)
  moreover have "s = ?a @ ?d" by simp
  ultimately show "s = ?a @ strip s @ ?b" by simp
  show "\<forall>c \<in> set ?a. isspace c" by (auto dest: set_takeWhileD)
  show "\<forall>c \<in> set ?b. isspace c" by (auto dest: set_takeWhileD)
qed

lemma re_search_tag_append:
  assumes "re_search match_tag s"
  shows "re_search match_tag (a @ s @ b)"
proof -
  from assms obtain t where t: "suffix t s" "match_tag t \<noteq> None"
    by (auto simp: re_search_iff)
  from t(2) have lt: "prefix ''<'' t" and gt: "find_at (prefix ''>'') (drop 1 t) \<noteq> None"
    unfolding match_tag_iff by blast+
  from lt have ne: "t \<noteq> []" by auto
  from gt obtain u where u: "suffix u (drop 1 t)" "prefix ''>'' u"
    by (auto simp: find_at_None_iff)
  from u(1) obtain v where v: "drop 1 t = v @ u" by (auto simp: suffix_def)
  with ne have "drop 1 (t @ b) = v @ (u @ b)" by (cases t) simp_all
  then have "suffix (u @ b) (drop 1 (t @ b))" by (simp add: suffix_def)
  moreover from u(2) have "prefix ''>'' (u @ b)" by (auto simp: prefix_def)
  ultimately have "find_at (prefix ''>'') (drop 1 (t @ b)) \<noteq> None"
    by (auto simp: find_at_None_iff)
  moreover from lt have "prefix ''<'' (t @ b)" by (auto simp: prefix_def)
  ultimately have "match_tag (t @ b) \<noteq> None" unfolding match_tag_iff by blast
  moreover from t(1) have "suffix (t @ b) (a @ s @ b)" by (auto simp: suffix_def)
  ultimately show ?thesis by (auto simp: re_search_iff)
qed

lemma re_search_literal_append:
  assumes "re_search (match_literal lit) s"
  shows "re_search (match_literal lit) (a @ s @ b)"
proof -
  from assms obtain t where t: "suffix t s" "prefix lit t"
    by (auto simp: re_search_iff match_literal_def split: if_splits)
  from t(2) have "match_literal lit (t @ b) \<noteq> None"
    by (auto simp: match_literal_def prefix_def)
  moreover from t(1) have "suffix (t @ b) (a @ s @ b)" by (auto simp: suffix_def)
  ultimately show ?thesis by (auto simp: re_search_iff)
qed

lemma split_acc_trailing:
  "\<forall>c \<in> set ws. isspace c \<Longrightarrow> split_acc w (s @ ws) = split_acc w s"
proof (induction s arbitrary: w)
  case Nil
  then show ?case by (induction ws arbitrary: w) simp_all
next
  case (Cons c cs)
  then show ?case by simp
qed

lemma split_strip: "split (strip s) = split s"
proof -
  obtain a b where d: "s = a @ strip s @ b" and a: "\<forall>c \<in> set a. isspace c"
    and b: "\<forall>c \<in> set b. isspace c" by (rule strip_decompose)
  have "split_acc [] (a @ (strip s @ b)) = split_acc [] (strip s @ b)"
    using a by (rule split_acc_leading)
  also have "\<dots> = split_acc [] (strip s)" using b by (rule split_acc_trailing)
  finally show ?thesis using d by (simp add: split_def str_split_def)
qed

lemma split_acc_collapse:
  "split_acc w (re_sub (match_literal ''  '') '' '' s) = split_acc w s"
proof (induction "match_literal ''  ''" "'' ''" s arbitrary: w rule: re_sub.induct)
  case 1
  show ?case by simp
next
  case (2 c cs)
  show ?case
  proof (cases "prefix ''  '' (c # cs)")
    case True
    then obtain cs' where c: "c = CHR '' ''" "cs = CHR '' '' # cs'" by (auto simp: prefix_def)
    have "match_literal ''  '' (c # cs) = Some (length ''  '')"
      by (simp only: match_literal_def True if_True)
    then have m: "match_literal ''  '' (c # cs) = Some 2" by simp
    have sp: "isspace (CHR '' '')" by (simp add: isspace_def)
    from "2.hyps"(2) [OF m] c have ih: "split_acc v (re_sub (match_literal ''  '') '' '' cs') = split_acc v cs'" for v
      by simp
    from m c sp ih show ?thesis by simp
  next
    case False
    have m: "match_literal ''  '' (c # cs) = None"
      by (simp only: match_literal_def False if_False)
    from "2.hyps"(1) [OF m] m show ?thesis by simp
  qed
qed

lemma split_collapse: "split (re_sub (match_literal ''  '') '' '' s) = split s"
  by (simp add: split_def str_split_def split_acc_collapse)

lemma simple_default_split:
  "split x = split y \<Longrightarrow> simple_default x = simple_default y"
  by (simp add: simple_default_def simple_def)

text \<open>
  C8, as stated, fails: besides the tags, \<open>html\<close> replaces the entity \<open>&nbsp;\<close> by a
  space, so a text without any tag that holds the entity is split there, while \<open>simple\<close>
  keeps the letters of the entity in the token.
\<close>

theorem html_plain_text_counterexample:
  "\<not> re_search match_tag ''a&nbsp;b''
   \<and> html_default ''a&nbsp;b'' = [''a'', ''b'']
   \<and> simple_default ''a&nbsp;b'' = [''anbspb'']"
  by code_simp

text \<open>
  C8, amended. For every text in which the tag pattern \<open><.*?>\<close> matches nowhere and
  the entity \<open>&nbsp;\<close> does not occur, the substitutions for script and style elements,
  comments, tags and the entity leave the stripped text unchanged, and \<open>html\<close> (with
  its default tokenizer \<open>simple\<close>) returns the token sequence of \<open>simple\<close> on the text.
\<close>

theorem html_plain_text:
  assumes "\<not> re_search match_tag text"
    and "\<not> re_search (match_literal ''&nbsp;'') text"
  shows "re_sub (match_literal ''&nbsp;'') '' ''
           (re_sub match_tag '' ''
             (re_sub match_comment [] (re_sub match_script [] (strip text)))) = strip text
       \<and> html_default text = simple_default text"
proof -
  let ?t = "strip text"
  let ?c = "re_sub (match_literal ''  '') '' ''"
  obtain a b where d: "text = a @ ?t @ b" by (rule strip_decompose)
  have tag: "\<not> re_search match_tag ?t"
    using assms(1) re_search_tag_append [of ?t a b] d by auto
  have ent: "\<not> re_search (match_literal ''&nbsp;'') ?t"
    using assms(2) re_search_literal_append [of "''&nbsp;''" ?t a b] d by auto
  have scr: "\<not> re_search match_script ?t"
    using tag re_search_mono [of match_script match_tag ?t] match_script_tag by blast
  have com: "\<not> re_search match_comment ?t"
    using tag re_search_mono [of match_comment match_tag ?t] match_comment_tag by blast
  have s1: "re_sub match_script [] ?t = ?t" using scr by (rule re_sub_no_match)
  have s2: "re_sub match_comment [] ?t = ?t" using com by (rule re_sub_no_match)
  have s3: "re_sub match_tag '' '' ?t = ?t" using tag by (rule re_sub_no_match)
  have s4: "re_sub (match_literal ''&nbsp;'') '' '' ?t = ?t" using ent by (rule re_sub_no_match)
  have unchanged: "re_sub (match_literal ''&nbsp;'') '' ''
           (re_sub match_tag '' '' (re_sub match_comment [] (re_sub match_script [] ?t))) = ?t"
    by (simp only: s1 s2 s3 s4)
  have "html_default text = simple_default (strip (?c (?c ?t)))"
    by (simp only: html_default_def html_def Let_def s1 s2 s3 s4)
  also have "split (strip (?c (?c ?t))) = split text"
    by (simp only: split_strip split_collapse)
  then have "simple_default (strip (?c (?c ?t))) = simple_default text"
    by (rule simple_default_split)
  finally show ?thesis using unchanged by blast
qed

theorem html_plain_text_witness:
  "\<not> re_search match_tag '' 1 < 2  and   Me&You ''
   \<and> \<not> re_search (match_literal ''&nbsp;'') '' 1 < 2  and   Me&You ''
   \<and> html_default '' 1 < 2  and   Me&You '' = [''and'', ''meyou'']
   \<and> simple_default '' 1 < 2  and   Me&You '' = [''and'', ''meyou'']"
proof -
  let ?d = "'' 1 < 2  and   Me&You ''"
  have h1: "\<not> re_search match_tag ?d" by code_simp
  have h2: "\<not> re_search (match_literal ''&nbsp;'') ?d" by code_simp
  have v: "simple_default ?d = [''and'', ''meyou'']" by code_simp
  from html_plain_text [OF h1 h2] have n: "html_default ?d = simple_default ?d" by blast
  show ?thesis by (intro conjI) (simp_all only: h1 h2 v n not_False_eq_True)
qed

section \<open>Properties of the anchor converter\<close>

lemma list_index_Some:
  "t \<in> set v \<Longrightarrow> \<exists>i. list_index v t = Some i \<and> i < length v \<and> v ! i = t"
  by (induction v) auto

lemma list_index_None: "t \<notin> set v \<Longrightarrow> list_index v t = None"
  by (induction v) auto

lemma sequence_map_Inr:
  "(\<And>x. x \<in> set xs \<Longrightarrow> f x = Inr (g x)) \<Longrightarrow> sequence (map f xs) = Inr (map g xs)"
  by (induction xs) simp_all

text \<open>
  C2. An integer anchor is returned by \<open>convert_anchor\<close> as it is, and a string that is
  not in the vocabulary makes it fail with the error of the lookup (the ValueError of
  \<open>list.index\<close>): no value is returned in its place.
\<close>

theorem convert_anchor_integer_or_lookup:
  "convert_anchor dataset (PInt i) = Inr (PInt i)
   \<and> (t \<notin> set (vocab dataset) \<longrightarrow> convert_anchor dataset (PStr t) = Inl ValueError)
   \<and> (t \<in> set (vocab dataset) \<longrightarrow>
        (\<exists>k < length (vocab dataset).
           vocab dataset ! k = t \<and> convert_anchor dataset (PStr t) = Inr (PInt (int k))))"
proof -
  have "convert_anchor dataset (PStr t) = Inl ValueError" if "t \<notin> set (vocab dataset)"
    using list_index_None [OF that] by simp
  moreover have "\<exists>k < length (vocab dataset).
           vocab dataset ! k = t \<and> convert_anchor dataset (PStr t) = Inr (PInt (int k))"
    if "t \<in> set (vocab dataset)"
    using list_index_Some [OF that] by auto
  ultimately show ?thesis by simp
qed

theorem convert_anchor_integer_or_lookup_witness:
  "convert_anchor \<lparr>vocab = [''a'', ''b'', ''c'']\<rparr> (PInt 7) = Inr (PInt 7)
   \<and> ''z'' \<notin> set (vocab \<lparr>vocab = [''a'', ''b'', ''c'']\<rparr>)
   \<and> convert_anchor \<lparr>vocab = [''a'', ''b'', ''c'']\<rparr> (PStr ''z'') = Inl ValueError"
proof -
  let ?d = "\<lparr>vocab = [''a'', ''b'', ''c'']\<rparr>"
  have h: "''z'' \<notin> set (vocab ?d)" by simp
  from convert_anchor_integer_or_lookup [of ?d 7 "''z''"] h show ?thesis by blast
qed

lemma convert_anchor_term:
  assumes "t \<in> set (vocab dataset)"
  shows "convert_anchor dataset (PStr t)
           = Inr (PInt (int (the (list_index (vocab dataset) t))))"
    and "vocab_get (vocab dataset) (PInt (int (the (list_index (vocab dataset) t)))) = Inr t"
  using list_index_Some [OF assms] by auto

lemma reindex_token_anchors:
  assumes "\<forall>group \<in> set groups. \<forall>t \<in> set group. t \<in> set (vocab dataset)"
  shows "reindex_anchors dataset (token_anchors groups)
           = Inr (PList (map (\<lambda>group. PList (map (\<lambda>t.
               PInt (int (the (list_index (vocab dataset) t)))) group)) groups))"
proof -
  let ?ix = "\<lambda>t. PInt (int (the (list_index (vocab dataset) t)))"
  have group: "tuplize (PList (map PStr g)) (convert_anchor dataset) = Inr (PList (map ?ix g))"
    if "g \<in> set groups" for g
  proof -
    have "sequence (map (\<lambda>t. convert_anchor dataset (PStr t)) g) = Inr (map ?ix g)"
    proof (rule sequence_map_Inr)
      fix x assume "x \<in> set g"
      with assms that have "x \<in> set (vocab dataset)" by blast
      then show "convert_anchor dataset (PStr x) = Inr (?ix x)" by (rule convert_anchor_term(1))
    qed
    then show ?thesis by (simp add: comp_def)
  qed
  have "sequence (map (\<lambda>g. tuplize (PList (map PStr g)) (convert_anchor dataset)) groups)
          = Inr (map (\<lambda>g. PList (map ?ix g)) groups)"
    using group by (intro sequence_map_Inr) simp
  then show ?thesis by (simp add: reindex_anchors_def token_anchors_def comp_def)
qed

lemma tokenify_indices:
  assumes "\<forall>group \<in> set groups. \<forall>t \<in> set group. t \<in> set (vocab dataset)"
  shows "tokenify_anchors dataset
           (PList (map (\<lambda>group. PList (map (\<lambda>t.
               PInt (int (the (list_index (vocab dataset) t)))) group)) groups)) = Inr groups"
proof -
  let ?ix = "\<lambda>t. PInt (int (the (list_index (vocab dataset) t)))"
  have group: "sequence (map (\<lambda>t. vocab_get (vocab dataset) (?ix t)) g) = Inr (map (\<lambda>t. t) g)"
    if "g \<in> set groups" for g
  proof (rule sequence_map_Inr)
    fix x assume "x \<in> set g"
    with assms that have "x \<in> set (vocab dataset)" by blast
    then show "vocab_get (vocab dataset) (?ix x) = Inr x" by (rule convert_anchor_term(2))
  qed
  have "sequence (map (\<lambda>g. sequence (map (\<lambda>t. vocab_get (vocab dataset) (?ix t)) g)) groups)
          = Inr (map (\<lambda>g. g) groups)"
    using group by (intro sequence_map_Inr) simp
  then show ?thesis by (simp add: tokenify_anchors_def comp_def)
qed

text \<open>
  C1. For every term \<open>t\<close> of the vocabulary, the anchors holding the one group \<open>[t]\<close>
  are converted to indices by \<open>reindex_anchors\<close> (through \<open>convert_anchor\<close>) and back to
  tokens by \<open>tokenify_anchors\<close> into the same anchors, the group still a group of one
  index in between; and so are any anchors whose groups hold vocabulary terms.
\<close>

theorem anchor_round_trip:
  "(t \<in> set (vocab dataset) \<longrightarrow>
      (\<exists>k. reindex_anchors dataset (token_anchors [[t]]) = Inr (PList [PList [PInt k]])
         \<and> tokenify_anchors dataset (PList [PList [PInt k]]) = Inr [[t]]))
   \<and> ((\<forall>group \<in> set groups. \<forall>t \<in> set group. t \<in> set (vocab dataset)) \<longrightarrow>
      (\<exists>indices. reindex_anchors dataset (token_anchors groups) = Inr indices
         \<and> tokenify_anchors dataset indices = Inr groups))"
proof (intro conjI impI)
  assume "t \<in> set (vocab dataset)"
  then have h: "\<forall>group \<in> set [[t]]. \<forall>t \<in> set group. t \<in> set (vocab dataset)" by simp
  from reindex_token_anchors [OF h] tokenify_indices [OF h]
  show "\<exists>k. reindex_anchors dataset (token_anchors [[t]]) = Inr (PList [PList [PInt k]])
         \<and> tokenify_anchors dataset (PList [PList [PInt k]]) = Inr [[t]]"
    by simp
next
  assume h: "\<forall>group \<in> set groups. \<forall>t \<in> set group. t \<in> set (vocab dataset)"
  from reindex_token_anchors [OF h] tokenify_indices [OF h]
  show "\<exists>indices. reindex_anchors dataset (token_anchors groups) = Inr indices
         \<and> tokenify_anchors dataset indices = Inr groups"
    by blast
qed

theorem anchor_round_trip_witness:
  "''b'' \<in> set (vocab \<lparr>vocab = [''a'', ''b'', ''c'']\<rparr>)
   \<and> reindex_anchors \<lparr>vocab = [''a'', ''b'', ''c'']\<rparr> (token_anchors [[''b'']])
       = Inr (PList [PList [PInt 1]])
   \<and> tokenify_anchors \<lparr>vocab = [''a'', ''b'', ''c'']\<rparr> (PList [PList [PInt 1]]) = Inr [[''b'']]"
proof -
  let ?d = "\<lparr>vocab = [''a'', ''b'', ''c'']\<rparr>"
  have h: "''b'' \<in> set (vocab ?d)" by simp
  have r: "reindex_anchors ?d (token_anchors [[''b'']]) = Inr (PList [PList [PInt 1]])"
    by (simp add: reindex_anchors_def token_anchors_def)
  from anchor_round_trip [of "''b''" ?d "[]"] h
  obtain k where "reindex_anchors ?d (token_anchors [[''b'']]) = Inr (PList [PList [PInt k]])"
    and t: "tokenify_anchors ?d (PList [PList [PInt k]]) = Inr [[''b'']]" by blast
  with r have "k = 1" by simp
  with t r h show ?thesis by simp
qed

section \<open>Properties of the topic request\<close>

lemma sequence_Inr_nth:
  "sequence xs = Inr ys \<Longrightarrow> length ys = length xs \<and> (\<forall>i < length xs. xs ! i = Inr (ys ! i))"
proof (induction xs arbitrary: ys)
  case Nil
  then show ?case by simp
next
  case (Cons x xs)
  from Cons.prems obtain v vs where x: "x = Inr v" and vs: "sequence xs = Inr vs"
    and ys: "ys = v # vs"
    by (auto split: sum.splits)
  from Cons.IH [OF vs] x ys show ?case by (auto simp: nth_Cons split: nat.splits)
qed

lemma topic_request_Inr:
  assumes "topic_request lib raw_anchors = Inr r"
  shows "\<exists>anchors. request_anchors lib raw_anchors = Inr anchors
     \<and> sequence (map (summary lib (recover_topics lib (newsgroups lib) anchors))
          [0..<ncols (recover_topics lib (newsgroups lib) anchors)]) = Inr (resp_topics r)
     \<and> (case raw_anchors of
          None \<Rightarrow> \<exists>tokens. tokenify_anchors (newsgroups lib) anchors = Inr tokens
                     \<and> resp_anchors r = Some tokens
        | Some raw \<Rightarrow> resp_anchors r = None)"
  using assms
  by (auto simp: topic_request_def Let_def split: sum.splits option.splits)

lemma last_ten_sorted:
  fixes f :: "nat \<Rightarrow> 'w::linorder"
  assumes d: "distinct p" and s: "set p = {..<n}" and o: "sorted (map f p)"
  shows "length (rev (drop (length p - 10) p)) = min 10 n"
    and "distinct (rev (drop (length p - 10) p))"
    and "set (rev (drop (length p - 10) p)) \<subseteq> {..<n}"
    and "sorted (rev (map f (rev (drop (length p - 10) p))))"
    and "\<forall>i < n. i \<notin> set (rev (drop (length p - 10) p))
           \<longrightarrow> (\<forall>w \<in> set (rev (drop (length p - 10) p)). f i \<le> f w)"
proof -
  let ?k = "length p - 10"
  from d s have len: "length p = n" using distinct_card [of p] by simp
  then show "length (rev (drop ?k p)) = min 10 n" by auto
  from d show "distinct (rev (drop ?k p))" by simp
  from s show "set (rev (drop ?k p)) \<subseteq> {..<n}" using set_drop_subset [of ?k p] by auto
  have split: "map f p = map f (take ?k p) @ map f (drop ?k p)"
    by (metis append_take_drop_id map_append)
  with o have parts: "sorted (map f (drop ?k p))"
    "\<forall>x \<in> set (map f (take ?k p)). \<forall>y \<in> set (map f (drop ?k p)). x \<le> y"
    by (simp_all add: sorted_append)
  from parts(1) show "sorted (rev (map f (rev (drop ?k p))))" by (simp add: rev_map)
  show "\<forall>i < n. i \<notin> set (rev (drop ?k p)) \<longrightarrow> (\<forall>w \<in> set (rev (drop ?k p)). f i \<le> f w)"
  proof (intro allI impI ballI)
    fix i w assume "i < n" and out: "i \<notin> set (rev (drop ?k p))"
      and w: "w \<in> set (rev (drop ?k p))"
    from \<open>i < n\<close> s have "i \<in> set p" by simp
    then have "i \<in> set (take ?k p) \<union> set (drop ?k p)"
      by (metis append_take_drop_id set_append)
    with out have "i \<in> set (take ?k p)" by simp
    with w parts(2) show "f i \<le> f w" by auto
  qed
qed

lemma summary_Inr:
  assumes ok: "summary lib topics k = Inr s"
    and inside: "set (top_words lib topics k) \<subseteq> {..<length (vocab (newsgroups lib))}"
  shows "s = map (\<lambda>word. vocab (newsgroups lib) ! word) (top_words lib topics k)"
proof -
  let ?v = "vocab (newsgroups lib)" and ?ws = "top_words lib topics k"
  from ok have "sequence (map (\<lambda>word. vocab_get ?v (PInt (int word))) ?ws) = Inr s"
    by (simp add: summary_def)
  moreover have "sequence (map (\<lambda>word. vocab_get ?v (PInt (int word))) ?ws)
                 = Inr (map (\<lambda>word. ?v ! word) ?ws)"
  proof (rule sequence_map_Inr)
    fix x assume "x \<in> set ?ws"
    with inside have "x < length ?v" by auto
    then show "vocab_get ?v (PInt (int x)) = Inr (?v ! x)" by simp
  qed
  ultimately show ?thesis by simp
qed

lemma stable_argsort_contract: "argsort_contract stable_argsort"
  by (auto simp: argsort_contract_def stable_argsort_def)

lemma sample_topics_contract: "topics_contract sample_services"
  by (simp add: topics_contract_def sample_services_def)

lemma tuplize_list_length:
  "tuplize (PList xs) conversion = Inr v \<Longrightarrow> \<exists>ys. v = PList ys \<and> length ys = length xs"
  by (auto split: sum.splits dest: sequence_Inr_nth)

lemma request_anchors_supplied:
  assumes "request_anchors lib (Some raw) = Inr anchors"
    and "json_loads lib raw = Inr (PList xs)"
  shows "\<exists>as. anchors = PList as \<and> length as = length xs"
proof -
  from assms obtain v where v: "tuplize (PList xs) Inr = Inr v"
    and a: "reindex_anchors (newsgroups lib) v = Inr anchors"
    by (auto simp: request_anchors_def split: sum.splits)
  from tuplize_list_length [OF v] obtain ys where ys: "v = PList ys" "length ys = length xs"
    by blast
  from a ys(1) have "tuplize (PList ys) (\<lambda>t. convert_anchor (newsgroups lib) t) = Inr anchors"
    by (simp add: reindex_anchors_def)
  from tuplize_list_length [OF this] ys(2) show ?thesis by auto
qed

lemma request_anchors_default:
  assumes "request_anchors lib None = Inr anchors"
    and "base_anchors lib = PList xs"
  shows "\<exists>as. anchors = PList as \<and> length as = length xs"
proof -
  from assms
  have "tuplize (PList xs) (\<lambda>t. convert_anchor (newsgroups lib) t) = Inr anchors"
    by (simp add: request_anchors_def reindex_anchors_def)
  from tuplize_list_length [OF this] show ?thesis by auto
qed

lemma sorted_wrt_filter_nth:
  assumes s: "sorted_wrt R (filter P s)" and ab: "a < b" "b < length s"
    and p: "P (s ! a)" "P (s ! b)"
  shows "R (s ! a) (s ! b)"
proof -
  from ab have a: "a < length s" by simp
  then have split: "s = take a s @ s ! a # drop (Suc a) s" by (rule id_take_nth_drop)
  from ab have "s ! b = drop (Suc a) s ! (b - Suc a)" by simp
  moreover from ab have "b - Suc a < length (drop (Suc a) s)" by simp
  ultimately have "s ! b \<in> set (drop (Suc a) s)" by (metis nth_mem)
  with p(2) have mem: "s ! b \<in> set (filter P (drop (Suc a) s))" by simp
  have "filter P s = filter P (take a s) @ s ! a # filter P (drop (Suc a) s)"
    using p(1) by (subst split) simp
  with s have "sorted_wrt R (s ! a # filter P (drop (Suc a) s))"
    by (simp add: sorted_wrt_append)
  with mem show ?thesis by simp
qed

lemma stable_argsort_stable: "argsort_stable stable_argsort"
  unfolding argsort_stable_def
proof (intro allI impI)
  fix xs :: "'a list" and a b
  let ?s = "stable_argsort xs" and ?f = "\<lambda>i. xs ! i"
  assume h: "a < b \<and> b < length ?s \<and> xs ! (?s ! a) = xs ! (?s ! b)"
  let ?P = "\<lambda>y. ?f y = ?f (?s ! b)"
  have "filter ?P ?s = filter ?P [0..<length xs]"
    unfolding stable_argsort_def by (rule sort_key_stable)
  moreover have "sorted_wrt (<) (filter ?P [0..<length xs])"
    by (intro sorted_wrt_filter) (simp add: sorted_wrt_upt)
  ultimately have "sorted_wrt (<) (filter ?P ?s)" by simp
  from sorted_wrt_filter_nth [OF this, of a b] h show "?s ! a < ?s ! b" by simp
qed

lemma rev_drop_ties:
  assumes st: "\<forall>a b. a < b \<and> b < length p \<and> f (p ! a) = f (p ! b) \<longrightarrow> p ! a < (p ! b :: nat)"
  shows "\<forall>a b. a < b \<and> b < length (rev (drop m p))
            \<and> f (rev (drop m p) ! a) = f (rev (drop m p) ! b)
          \<longrightarrow> rev (drop m p) ! b < rev (drop m p) ! a"
proof (intro allI impI)
  fix a b
  assume h: "a < b \<and> b < length (rev (drop m p))
            \<and> f (rev (drop m p) ! a) = f (rev (drop m p) ! b)"
  let ?L = "length (drop m p)"
  from h have ab: "a < b" "b < ?L" by simp_all
  then have na: "rev (drop m p) ! a = p ! (m + (?L - Suc a))"
    and nb: "rev (drop m p) ! b = p ! (m + (?L - Suc b))"
    by (simp_all add: rev_nth)
  from ab have "m + (?L - Suc b) < m + (?L - Suc a)" "m + (?L - Suc a) < length p"
    by auto
  with st h na nb show "rev (drop m p) ! b < rev (drop m p) ! a" by metis
qed

lemma wide_topics_contract: "topics_contract wide_services"
  by (simp add: topics_contract_def wide_services_def)

text \<open>
  C3. In the response of a topic request there is one summary for each column of the
  topic matrix, hence, topic recovery giving a column for each anchor, one for each
  anchor of the request: as many summaries as the list that \<open>json.loads\<close> reads from
  the anchors supplied has elements, or as the default anchors have when none is
  supplied. The summary of a topic is made of the terms at the last ten positions that
  \<open>argsort\<close> gives for its column, in reverse: at most ten terms and at most as many as
  the vocabulary has, all different, by non-increasing weight, no term left out
  weighing more than one taken. Nothing but the sort orders terms of equal weight: with
  a stable \<open>argsort\<close> they stand by decreasing position in the vocabulary.
\<close>

theorem topic_summaries:
  fixes lib :: "('w::linorder) services"
  assumes ok: "topic_request lib raw_anchors = Inr r"
    and sort: "argsort_contract (argsort lib)"
    and shape: "topics_contract lib"
  shows "(\<exists>anchors. request_anchors lib raw_anchors = Inr anchors)
   \<and> (\<forall>anchors. request_anchors lib raw_anchors = Inr anchors \<longrightarrow>
       (let topics = recover_topics lib (newsgroups lib) anchors;
             v = vocab (newsgroups lib)
        in length (resp_topics r) = ncols topics
         \<and> (\<forall>as. anchors = PList as \<longrightarrow> length (resp_topics r) = length as)
         \<and> (\<forall>raw supplied.
               raw_anchors = Some raw \<and> json_loads lib raw = Inr (PList supplied)
               \<longrightarrow> length (resp_topics r) = length supplied)
         \<and> (\<forall>defaults.
               raw_anchors = None \<and> base_anchors lib = PList defaults
               \<longrightarrow> length (resp_topics r) = length defaults)
         \<and> (\<forall>k < ncols topics.
              let col = column topics k; words = top_words lib topics k
              in resp_topics r ! k = map (\<lambda>w. v ! w) words
               \<and> words = rev (drop (length v - 10) (argsort lib col))
               \<and> length (resp_topics r ! k) = min 10 (length v)
               \<and> length (resp_topics r ! k) \<le> 10
               \<and> length (resp_topics r ! k) \<le> length v
               \<and> distinct words \<and> set words \<subseteq> {..<length v}
               \<and> sorted (rev (map (\<lambda>w. col ! w) words))
               \<and> (\<forall>i < length v. i \<notin> set words \<longrightarrow> (\<forall>w \<in> set words. col ! i \<le> col ! w))
               \<and> (argsort_stable (argsort lib) \<longrightarrow>
                    (\<forall>a b. a < b \<and> b < length words \<and> col ! (words ! a) = col ! (words ! b)
                       \<longrightarrow> words ! b < words ! a)))))"
proof (intro conjI allI impI)
  from topic_request_Inr [OF ok]
  show "\<exists>anchors. request_anchors lib raw_anchors = Inr anchors" by blast
next
  fix anchors
  assume a: "request_anchors lib raw_anchors = Inr anchors"
  let ?v = "vocab (newsgroups lib)"
  from topic_request_Inr [OF ok] a
  have seq: "sequence (map (summary lib (recover_topics lib (newsgroups lib) anchors))
          [0..<ncols (recover_topics lib (newsgroups lib) anchors)]) = Inr (resp_topics r)"
    by auto
  let ?t = "recover_topics lib (newsgroups lib) anchors"
  from shape have rows: "nrows ?t = length ?v"
    and cols: "\<And>as. anchors = PList as \<Longrightarrow> ncols ?t = length as"
    by (simp_all add: topics_contract_def)
  from sequence_Inr_nth [OF seq]
  have len: "length (resp_topics r) = ncols ?t"
    and each: "\<And>k. k < ncols ?t \<Longrightarrow> summary lib ?t k = Inr (resp_topics r ! k)"
    by simp_all
  from len cols have count: "\<forall>as. anchors = PList as \<longrightarrow> length (resp_topics r) = length as"
    by simp
  have supplied: "\<forall>raw supplied.
       raw_anchors = Some raw \<and> json_loads lib raw = Inr (PList supplied)
       \<longrightarrow> length (resp_topics r) = length supplied"
  proof (intro allI impI)
    fix raw supplied
    assume h: "raw_anchors = Some raw \<and> json_loads lib raw = Inr (PList supplied)"
    with a have "request_anchors lib (Some raw) = Inr anchors" by simp
    from request_anchors_supplied [OF this] h
    obtain as where "anchors = PList as" "length as = length supplied" by blast
    with count show "length (resp_topics r) = length supplied" by simp
  qed
  have defaults: "\<forall>defaults.
       raw_anchors = None \<and> base_anchors lib = PList defaults
       \<longrightarrow> length (resp_topics r) = length defaults"
  proof (intro allI impI)
    fix defaults
    assume h: "raw_anchors = None \<and> base_anchors lib = PList defaults"
    with a have "request_anchors lib None = Inr anchors" by simp
    from request_anchors_default [OF this] h
    obtain as where "anchors = PList as" "length as = length defaults" by blast
    with count show "length (resp_topics r) = length defaults" by simp
  qed
  have topic: "resp_topics r ! k = map (\<lambda>w. ?v ! w) (top_words lib ?t k)
       \<and> top_words lib ?t k = rev (drop (length ?v - 10) (argsort lib (column ?t k)))
       \<and> length (resp_topics r ! k) = min 10 (length ?v)
       \<and> length (resp_topics r ! k) \<le> 10
       \<and> length (resp_topics r ! k) \<le> length ?v
       \<and> distinct (top_words lib ?t k) \<and> set (top_words lib ?t k) \<subseteq> {..<length ?v}
       \<and> sorted (rev (map (\<lambda>w. column ?t k ! w) (top_words lib ?t k)))
       \<and> (\<forall>i < length ?v. i \<notin> set (top_words lib ?t k)
             \<longrightarrow> (\<forall>w \<in> set (top_words lib ?t k). column ?t k ! i \<le> column ?t k ! w))
       \<and> (argsort_stable (argsort lib) \<longrightarrow>
            (\<forall>a b. a < b \<and> b < length (top_words lib ?t k)
                 \<and> column ?t k ! (top_words lib ?t k ! a) = column ?t k ! (top_words lib ?t k ! b)
               \<longrightarrow> top_words lib ?t k ! b < top_words lib ?t k ! a))"
    if k: "k < ncols ?t" for k
  proof -
    let ?col = "column ?t k"
    let ?p = "argsort lib ?col"
    have lc: "length ?col = length ?v" using rows by (simp add: column_def)
    from sort have d: "distinct ?p" and s: "set ?p = {..<length ?v}"
      and o: "sorted (map (\<lambda>i. ?col ! i) ?p)"
      unfolding argsort_contract_def using lc by metis+
    from d s have lp: "length ?p = length ?v" using distinct_card [of ?p] by simp
    have tw: "top_words lib ?t k = rev (drop (length ?p - 10) ?p)"
      by (simp add: top_words_def Let_def)
    note props = last_ten_sorted [OF d s o]
    from props(3) have inside: "set (top_words lib ?t k) \<subseteq> {..<length ?v}" by (simp only: tw)
    from summary_Inr [OF each [OF k] inside]
    have eq: "resp_topics r ! k = map (\<lambda>w. ?v ! w) (top_words lib ?t k)" .
    then have l: "length (resp_topics r ! k) = min 10 (length ?v)"
      using props(1) by (simp add: tw)
    have ties: "\<forall>a b. a < b \<and> b < length (top_words lib ?t k)
                 \<and> ?col ! (top_words lib ?t k ! a) = ?col ! (top_words lib ?t k ! b)
               \<longrightarrow> top_words lib ?t k ! b < top_words lib ?t k ! a"
      if st: "argsort_stable (argsort lib)"
    proof -
      from st have "\<forall>a b. a < b \<and> b < length ?p \<and> ?col ! (?p ! a) = ?col ! (?p ! b)
                      \<longrightarrow> ?p ! a < ?p ! b"
        unfolding argsort_stable_def by blast
      from rev_drop_ties [of ?p "\<lambda>i. ?col ! i" "length ?p - 10", OF this]
      show ?thesis by (simp only: tw)
    qed
    have main: "resp_topics r ! k = map (\<lambda>w. ?v ! w) (top_words lib ?t k)
       \<and> top_words lib ?t k = rev (drop (length ?v - 10) (argsort lib (column ?t k)))
       \<and> length (resp_topics r ! k) = min 10 (length ?v)
       \<and> length (resp_topics r ! k) \<le> 10
       \<and> length (resp_topics r ! k) \<le> length ?v
       \<and> distinct (top_words lib ?t k) \<and> set (top_words lib ?t k) \<subseteq> {..<length ?v}
       \<and> sorted (rev (map (\<lambda>w. column ?t k ! w) (top_words lib ?t k)))
       \<and> (\<forall>i < length ?v. i \<notin> set (top_words lib ?t k)
             \<longrightarrow> (\<forall>w \<in> set (top_words lib ?t k). column ?t k ! i \<le> column ?t k ! w))"
      using eq tw lp l props by simp
    from main ties show ?thesis by blast
  qed
  from topic have every: "\<forall>k < ncols ?t.
         resp_topics r ! k = map (\<lambda>w. ?v ! w) (top_words lib ?t k)
       \<and> top_words lib ?t k = rev (drop (length ?v - 10) (argsort lib (column ?t k)))
       \<and> length (resp_topics r ! k) = min 10 (length ?v)
       \<and> length (resp_topics r ! k) \<le> 10
       \<and> length (resp_topics r ! k) \<le> length ?v
       \<and> distinct (top_words lib ?t k) \<and> set (top_words lib ?t k) \<subseteq> {..<length ?v}
       \<and> sorted (rev (map (\<lambda>w. column ?t k ! w) (top_words lib ?t k)))
       \<and> (\<forall>i < length ?v. i \<notin> set (top_words lib ?t k)
             \<longrightarrow> (\<forall>w \<in> set (top_words lib ?t k). column ?t k ! i \<le> column ?t k ! w))
       \<and> (argsort_stable (argsort lib) \<longrightarrow>
            (\<forall>a b. a < b \<and> b < length (top_words lib ?t k)
                 \<and> column ?t k ! (top_words lib ?t k ! a) = column ?t k ! (top_words lib ?t k ! b)
               \<longrightarrow> top_words lib ?t k ! b < top_words lib ?t k ! a))"
    by blast
  show "let topics = recover_topics lib (newsgroups lib) anchors;
            v = vocab (newsgroups lib)
        in length (resp_topics r) = ncols topics
         \<and> (\<forall>as. anchors = PList as \<longrightarrow> length (resp_topics r) = length as)
         \<and> (\<forall>raw supplied.
               raw_anchors = Some raw \<and> json_loads lib raw = Inr (PList supplied)
               \<longrightarrow> length (resp_topics r) = length supplied)
         \<and> (\<forall>defaults.
               raw_anchors = None \<and> base_anchors lib = PList defaults
               \<longrightarrow> length (resp_topics r) = length defaults)
         \<and> (\<forall>k < ncols topics.
              let col = column topics k; words = top_words lib topics k
              in resp_topics r ! k = map (\<lambda>w. v ! w) words
               \<and> words = rev (drop (length v - 10) (argsort lib col))
               \<and> length (resp_topics r ! k) = min 10 (length v)
               \<and> length (resp_topics r ! k) \<le> 10
               \<and> length (resp_topics r ! k) \<le> length v
               \<and> distinct words \<and> set words \<subseteq> {..<length v}
               \<and> sorted (rev (map (\<lambda>w. col ! w) words))
               \<and> (\<forall>i < length v. i \<notin> set words \<longrightarrow> (\<forall>w \<in> set words. col ! i \<le> col ! w))
               \<and> (argsort_stable (argsort lib) \<longrightarrow>
                    (\<forall>a b. a < b \<and> b < length words \<and> col ! (words ! a) = col ! (words ! b)
                       \<longrightarrow> words ! b < words ! a)))"
    unfolding Let_def by (intro conjI len count supplied defaults every)
qed

theorem topic_summaries_witness:
  "topic_request wide_services (Some (''[['' @ [dq] @ ''b'' @ [dq] @ ''], [11]]''))
     = Inr \<lparr>resp_topics =
              [[''l'', ''h'', ''d'', ''k'', ''g'', ''c'', ''j'', ''f'', ''b'', ''i''],
               [''i'', ''e'', ''a'', ''l'', ''h'', ''d'', ''k'', ''g'', ''c'', ''j'']],
            resp_anchors = None\<rparr>
   \<and> argsort_contract (argsort wide_services)
   \<and> topics_contract wide_services
   \<and> argsort_stable (argsort wide_services)
   \<and> json_loads wide_services (''[['' @ [dq] @ ''b'' @ [dq] @ ''], [11]]'')
       = Inr (PList [PList [PStr ''b''], PList [PInt 11]])
   \<and> length [[''l'', ''h'', ''d'', ''k'', ''g'', ''c'', ''j'', ''f'', ''b'', ''i''],
              [''i'', ''e'', ''a'', ''l'', ''h'', ''d'', ''k'', ''g'', ''c'', ''j'']]
       = length [PList [PStr ''b''], PList [PInt 11]]
   \<and> length [''l'', ''h'', ''d'', ''k'', ''g'', ''c'', ''j'', ''f'', ''b'', ''i'']
       = min 10 (length (vocab (newsgroups wide_services)))
   \<and> column (recover_topics wide_services (newsgroups wide_services)
               (PList [PList [PInt 1], PList [PInt 11]])) 0 ! 11
       = column (recover_topics wide_services (newsgroups wide_services)
               (PList [PList [PInt 1], PList [PInt 11]])) 0 ! 7
   \<and> top_words wide_services (recover_topics wide_services (newsgroups wide_services)
               (PList [PList [PInt 1], PList [PInt 11]])) 0
       = [11, 7, 3, 10, 6, 2, 9, 5, 1, 8]
   \<and> [11, 7, 3, 10, 6, 2, 9, 5, 1, 8] ! 1 < [11, 7, 3, 10, 6, 2, 9, 5, 1, 8 :: nat] ! 0"
proof -
  let ?raw = "''[['' @ [dq] @ ''b'' @ [dq] @ ''], [11]]''"
  let ?s0 = "[''l'', ''h'', ''d'', ''k'', ''g'', ''c'', ''j'', ''f'', ''b'', ''i'']"
  let ?s1 = "[''i'', ''e'', ''a'', ''l'', ''h'', ''d'', ''k'', ''g'', ''c'', ''j'']"
  let ?r = "\<lparr>resp_topics = [?s0, ?s1], resp_anchors = None\<rparr>"
  let ?ix = "PList [PList [PInt 1], PList [PInt 11]]"
  let ?t = "recover_topics wide_services (newsgroups wide_services) ?ix"
  let ?w = "[11, 7, 3, 10, 6, 2, 9, 5, 1, 8] :: nat list"
  have ok: "topic_request wide_services (Some ?raw) = Inr ?r" by code_simp
  have sort: "argsort_contract (argsort wide_services)"
    using stable_argsort_contract by (simp add: wide_services_def)
  have shape: "topics_contract wide_services" by (rule wide_topics_contract)
  have stable: "argsort_stable (argsort wide_services)"
    using stable_argsort_stable by (simp add: wide_services_def)
  have js: "json_loads wide_services ?raw = Inr (PList [PList [PStr ''b''], PList [PInt 11]])"
    by code_simp
  have used: "request_anchors wide_services (Some ?raw) = Inr ?ix" by code_simp
  have nc: "ncols ?t = 2" by code_simp
  have tie: "column ?t 0 ! 11 = column ?t 0 ! 7" by code_simp
  have tw: "top_words wide_services ?t 0 = ?w" by code_simp
  note all = topic_summaries [OF ok sort shape, THEN conjunct2, rule_format, OF used,
      unfolded Let_def]
  note count = all [THEN conjunct2, THEN conjunct2, THEN conjunct1, rule_format]
  from nc have k0: "0 < ncols ?t" by simp
  note topic = all [THEN conjunct2, THEN conjunct2, THEN conjunct2, THEN conjunct2,
      rule_format, OF k0]
  have c1: "length (resp_topics ?r) = length [PList [PStr ''b''], PList [PInt 11]]"
    using js by (intro count) simp
  from topic [THEN conjunct2, THEN conjunct2, THEN conjunct1]
  have c2: "length ?s0 = min 10 (length (vocab (newsgroups wide_services)))" by simp
  note ties = topic [THEN conjunct2, THEN conjunct2, THEN conjunct2, THEN conjunct2,
      THEN conjunct2, THEN conjunct2, THEN conjunct2, THEN conjunct2, THEN conjunct2,
      rule_format, OF stable, unfolded tw]
  have "?w ! 1 < ?w ! 0"
  proof (rule ties)
    show "(0::nat) < 1 \<and> 1 < length ?w \<and> column ?t 0 ! (?w ! 0) = column ?t 0 ! (?w ! 1)"
      using tie by simp
  qed
  then have c3: "?w ! 1 < ?w ! 0" .
  from c1 have c1': "length [?s0, ?s1] = length [PList [PStr ''b''], PList [PInt 11]]"
    by simp
  from ok sort shape stable js c1' c2 tie tw c3 show ?thesis by (intro conjI)
qed

text \<open>
  C4. A topic request without anchors uses the default anchors: its response holds the
  topic summaries and these anchors in token form. A request with anchors of the caller
  answers with the topic summaries only, the field of the anchors being absent.
\<close>

theorem topic_response_anchors:
  "(topic_request lib None = Inr r \<longrightarrow>
      (\<exists>anchors tokens.
          reindex_anchors (newsgroups lib) (base_anchors lib) = Inr anchors
        \<and> tokenify_anchors (newsgroups lib) anchors = Inr tokens
        \<and> resp_anchors r = Some tokens
        \<and> sequence (map (summary lib (recover_topics lib (newsgroups lib) anchors))
             [0..<ncols (recover_topics lib (newsgroups lib) anchors)]) = Inr (resp_topics r)))
   \<and> (topic_request lib (Some raw) = Inr r' \<longrightarrow>
      resp_anchors r' = None
      \<and> (\<exists>anchors.
            request_anchors lib (Some raw) = Inr anchors
          \<and> sequence (map (summary lib (recover_topics lib (newsgroups lib) anchors))
               [0..<ncols (recover_topics lib (newsgroups lib) anchors)])
              = Inr (resp_topics r')))"
proof (intro conjI impI)
  assume "topic_request lib None = Inr r"
  from topic_request_Inr [OF this]
  show "\<exists>anchors tokens.
          reindex_anchors (newsgroups lib) (base_anchors lib) = Inr anchors
        \<and> tokenify_anchors (newsgroups lib) anchors = Inr tokens
        \<and> resp_anchors r = Some tokens
        \<and> sequence (map (summary lib (recover_topics lib (newsgroups lib) anchors))
             [0..<ncols (recover_topics lib (newsgroups lib) anchors)]) = Inr (resp_topics r)"
    by (auto simp: request_anchors_def)
next
  assume ok: "topic_request lib (Some raw) = Inr r'"
  from topic_request_Inr [OF ok] show "resp_anchors r' = None" by auto
  from topic_request_Inr [OF ok]
  show "\<exists>anchors.
            request_anchors lib (Some raw) = Inr anchors
          \<and> sequence (map (summary lib (recover_topics lib (newsgroups lib) anchors))
               [0..<ncols (recover_topics lib (newsgroups lib) anchors)])
              = Inr (resp_topics r')"
    by auto
qed

theorem topic_response_anchors_witness:
  "topic_request sample_services None
     = Inr \<lparr>resp_topics = [[''b'', ''c'', ''a''], [''c'', ''a'', ''b'']],
            resp_anchors = Some [[''a''], [''c'']]\<rparr>
   \<and> tokenify_anchors (newsgroups sample_services) (PList [PList [PInt 0], PList [PInt 2]])
       = Inr [[''a''], [''c'']]
   \<and> topic_request sample_services (Some ''[[1]]'')
       = Inr \<lparr>resp_topics = [[''b'', ''c'', ''a'']], resp_anchors = None\<rparr>
   \<and> resp_anchors \<lparr>resp_topics = [[''b'', ''c'', ''a'']], resp_anchors = None\<rparr> = None"
proof -
  let ?r = "\<lparr>resp_topics = [[''b'', ''c'', ''a''], [''c'', ''a'', ''b'']],
            resp_anchors = Some [[''a''], [''c'']]\<rparr>"
  let ?r' = "\<lparr>resp_topics = [[''b'', ''c'', ''a'']], resp_anchors = None\<rparr>"
  have ok: "topic_request sample_services None = Inr ?r" by code_simp
  have ok': "topic_request sample_services (Some ''[[1]]'') = Inr ?r'" by code_simp
  have used: "reindex_anchors (newsgroups sample_services) (base_anchors sample_services)
                = Inr (PList [PList [PInt 0], PList [PInt 2]])" by code_simp
  from topic_response_anchors [of sample_services ?r "''[[1]]''" ?r'] ok ok'
  obtain anchors tokens
    where "reindex_anchors (newsgroups sample_services) (base_anchors sample_services)
             = Inr anchors"
      and "tokenify_anchors (newsgroups sample_services) anchors = Inr tokens"
      and "resp_anchors ?r = Some tokens" and none: "resp_anchors ?r' = None"
    by blast
  with used have tok: "tokenify_anchors (newsgroups sample_services)
      (PList [PList [PInt 0], PList [PInt 2]]) = Inr [[''a''], [''c'']]" by simp
  from ok tok ok' none show ?thesis by (intro conjI)
qed

section \<open>Properties of the cache levels\<close>

lemma memoize_hit:
  "memo w name args = Some v \<Longrightarrow> memoize name f args w = (v, w)"
  by (simp add: memoize_def)

lemma memoize_miss_store_hit:
  "memo w name args = None \<Longrightarrow> store w path = Some v \<Longrightarrow>
   memoize name (pickle_cache path g) args w
     = (v, w\<lparr>touched := touched w @ [path],
              memo := (memo w)(name := (memo w name)(args \<mapsto> v))\<rparr>)"
  by (simp add: memoize_def pickle_cache_def Let_def)

lemma wrapped_miss:
  assumes k: "keeps name path g" and miss: "memo w name args = None"
  shows "count_list (touched (snd (memoize name (pickle_cache path g) args w))) path
           = count_list (touched w) path + 1"
    and "insert args (dom (memo w name))
           \<subseteq> dom (memo (snd (memoize name (pickle_cache path g) args w)) name)"
proof -
  let ?w0 = "w\<lparr>touched := touched w @ [path]\<rparr>"
  from k have g: "dom (memo ?w0 name) \<subseteq> dom (memo (snd (g args ?w0)) name)"
    "count_list (touched (snd (g args ?w0))) path = count_list (touched ?w0) path"
    unfolding keeps_def by blast+
  show "count_list (touched (snd (memoize name (pickle_cache path g) args w))) path
           = count_list (touched w) path + 1"
    using miss g(2)
    by (cases "g args ?w0")
       (auto simp: memoize_def pickle_cache_def Let_def split: option.splits)
  show "insert args (dom (memo w name))
           \<subseteq> dom (memo (snd (memoize name (pickle_cache path g) args w)) name)"
    using miss g(1)
    by (cases "g args ?w0")
       (auto simp: memoize_def pickle_cache_def Let_def split: option.splits)
qed

lemma run_calls_bound:
  assumes k: "keeps name path g"
  shows "count_list (touched (run_calls (memoize name (pickle_cache path g)) calls w)) path
           \<le> count_list (touched w) path + card (set calls - dom (memo w name))"
proof (induction calls arbitrary: w)
  case Nil
  show ?case by simp
next
  case (Cons a cs)
  let ?f = "memoize name (pickle_cache path g)"
  let ?w1 = "snd (?f a w)"
  show ?case
  proof (cases "memo w name a")
    case (Some v)
    then have same: "?w1 = w" by (simp add: memoize_hit)
    have "card (set cs - dom (memo w name)) \<le> card (set (a # cs) - dom (memo w name))"
      by (rule card_mono) auto
    with Cons.IH [of w] same show ?thesis by simp
  next
    case None
    note m = wrapped_miss [OF k None]
    have "set cs - dom (memo ?w1 name) \<subseteq> set cs - insert a (dom (memo w name))"
      using m(2) by blast
    then have "card (set cs - dom (memo ?w1 name))
                 \<le> card (set cs - insert a (dom (memo w name)))"
      by (intro card_mono) simp_all
    moreover from None have "set (a # cs) - dom (memo w name)
        = insert a (set cs - insert a (dom (memo w name)))" by auto
    then have "card (set (a # cs) - dom (memo w name))
        = Suc (card (set cs - insert a (dom (memo w name))))" by simp
    ultimately show ?thesis using Cons.IH [of ?w1] m(1) by simp
  qed
qed

lemma once_get_newsgroups: "once w \<Longrightarrow> once (snd (get_newsgroups rp [] w))"
  by (auto simp: once_def get_newsgroups_def memoize_def pickle_cache_def Let_def
           split: option.splits)

lemma once_default_anchors: "once w \<Longrightarrow> once (snd (default_anchors rp gs [] w))"
  by (auto simp: once_def default_anchors_def get_newsgroups_def memoize_def
                 pickle_cache_def Let_def
           split: option.splits)

lemma once_serve: "once w \<Longrightarrow> once (serve rp gs calls w)"
proof (induction calls arbitrary: w)
  case Nil
  then show ?case by simp
next
  case (Cons c cs)
  then show ?case
    by (cases c) (simp_all add: once_get_newsgroups once_default_anchors)
qed

lemma once_fresh: "once (fresh disk)"
  by (simp add: once_def fresh_def)

lemma keeps_corpus: "keeps name path (\<lambda>args w. (v, w))"
  by (simp add: keeps_def)

lemma keeps_anchors:
  "keeps ''default_anchors'' ''fcc-anchors-default.pickle''
     (\<lambda>args w. case get_newsgroups rp [] w of
                  (dataset, w') \<Rightarrow> (Anchors (gs dataset 20 500), w'))"
  by (auto simp: keeps_def get_newsgroups_def memoize_def pickle_cache_def Let_def
           split: option.splits prod.splits)

lemma get_newsgroups_hit:
  "memo w ''get_newsgroups'' [] = Some v \<Longrightarrow> get_newsgroups rp [] w = (v, w)"
  by (simp add: get_newsgroups_def memoize_hit)

lemma get_newsgroups_store_hit:
  "memo w ''get_newsgroups'' [] = None \<Longrightarrow> store w ''fcc.pickle'' = Some v \<Longrightarrow>
   get_newsgroups rp [] w
     = (v, w\<lparr>touched := touched w @ [''fcc.pickle''],
              memo := (memo w)(''get_newsgroups'' := (memo w ''get_newsgroups'')([] \<mapsto> v))\<rparr>)"
  by (simp add: get_newsgroups_def memoize_miss_store_hit)

lemma get_newsgroups_build:
  "memo w ''get_newsgroups'' [] = None \<Longrightarrow> store w ''fcc.pickle'' = None \<Longrightarrow>
   get_newsgroups rp [] w
     = (Corpus rp,
        w\<lparr>touched := touched w @ [''fcc.pickle''],
          store := (store w)(''fcc.pickle'' \<mapsto> Corpus rp),
          memo := (memo w)(''get_newsgroups'' :=
                    (memo w ''get_newsgroups'')([] \<mapsto> Corpus rp))\<rparr>)"
  by (simp add: get_newsgroups_def memoize_def pickle_cache_def Let_def)

lemma default_anchors_hit:
  "memo w ''default_anchors'' [] = Some v \<Longrightarrow> default_anchors rp gs [] w = (v, w)"
  by (simp add: default_anchors_def memoize_hit)

lemma default_anchors_store_hit:
  "memo w ''default_anchors'' [] = None \<Longrightarrow>
   store w ''fcc-anchors-default.pickle'' = Some v \<Longrightarrow>
   default_anchors rp gs [] w
     = (v, w\<lparr>touched := touched w @ [''fcc-anchors-default.pickle''],
              memo := (memo w)(''default_anchors'' :=
                        (memo w ''default_anchors'')([] \<mapsto> v))\<rparr>)"
  by (simp add: default_anchors_def memoize_miss_store_hit)

lemma default_anchors_build:
  "memo w ''default_anchors'' [] = None \<Longrightarrow>
   store w ''fcc-anchors-default.pickle'' = None \<Longrightarrow>
   default_anchors rp gs [] w
     = (case get_newsgroups rp [] (w\<lparr>touched := touched w @ [''fcc-anchors-default.pickle'']\<rparr>) of
          (dataset, w') \<Rightarrow>
            (Anchors (gs dataset 20 500),
             w'\<lparr>store := (store w')(''fcc-anchors-default.pickle''
                          \<mapsto> Anchors (gs dataset 20 500)),
                memo := (memo w')(''default_anchors'' :=
                          (memo w' ''default_anchors'')([] \<mapsto> Anchors (gs dataset 20 500)))\<rparr>))"
  by (simp add: default_anchors_def memoize_def pickle_cache_def Let_def split: prod.splits)

lemma get_newsgroups_calls:
  "count_list (touched (run_calls (get_newsgroups rp) calls w)) ''fcc.pickle''
     \<le> count_list (touched w) ''fcc.pickle''
        + card (set calls - dom (memo w ''get_newsgroups''))"
  unfolding get_newsgroups_def using keeps_corpus by (rule run_calls_bound)

lemma default_anchors_calls:
  "count_list (touched (run_calls (default_anchors rp gs) calls w))
       ''fcc-anchors-default.pickle''
     \<le> count_list (touched w) ''fcc-anchors-default.pickle''
        + card (set calls - dom (memo w ''default_anchors''))"
  unfolding default_anchors_def using keeps_anchors by (rule run_calls_bound)

text \<open>
  C5. The two builders of \<open>server.py\<close>, each under \<open>memoize\<close> above \<open>pickle_cache\<close>,
  and the pair of decorators on any builder. For \<open>get_newsgroups\<close> and for
  \<open>default_anchors\<close> themselves: a call that finds its value in the cache of the process
  returns it and leaves the state as it is, so the file is not consulted; a call that
  misses there and finds the file returns the stored value without running the body, and
  the cache of the process holds that value afterwards; a call that misses at both levels
  runs the body (for \<open>default_anchors\<close> the Gram-Schmidt anchors of the corpus that
  \<open>get_newsgroups\<close> yields, with 20 and 500), writes the file and fills the cache of the
  process. Over any calls in a process each builder consults its file at most once for
  each distinct argument list not yet in the cache, and whatever calls of the two a
  process makes from its start, in any order, each of the two files is consulted at most
  once. The first three conjuncts state the same of the two decorators on any builder
  that keeps the cache of the process and does not consult the file itself.
\<close>

theorem cache_levels:
  "(memo w name args = Some v \<longrightarrow>
      memoize name (pickle_cache path g) args w = (v, w))
   \<and> (memo w name args = None \<and> store w path = Some v \<longrightarrow>
      memoize name (pickle_cache path g) args w
        = (v, w\<lparr>touched := touched w @ [path],
                 memo := (memo w)(name := (memo w name)(args \<mapsto> v))\<rparr>))
   \<and> (keeps name path g \<longrightarrow>
      count_list (touched (run_calls (memoize name (pickle_cache path g)) calls w)) path
        \<le> count_list (touched w) path + card (set calls - dom (memo w name)))
   \<and> keeps ''get_newsgroups'' ''fcc.pickle'' (\<lambda>args w. (Corpus rp, w))
   \<and> keeps ''default_anchors'' ''fcc-anchors-default.pickle''
        (\<lambda>args w. case get_newsgroups rp [] w of
                     (dataset, w') \<Rightarrow> (Anchors (gs dataset 20 500), w'))
   \<and> (memo s ''get_newsgroups'' [] = Some c \<longrightarrow> get_newsgroups rp [] s = (c, s))
   \<and> (memo s ''get_newsgroups'' [] = None \<and> store s ''fcc.pickle'' = Some c \<longrightarrow>
      get_newsgroups rp [] s
        = (c, s\<lparr>touched := touched s @ [''fcc.pickle''],
                 memo := (memo s)(''get_newsgroups'' :=
                           (memo s ''get_newsgroups'')([] \<mapsto> c))\<rparr>))
   \<and> (memo s ''get_newsgroups'' [] = None \<and> store s ''fcc.pickle'' = None \<longrightarrow>
      get_newsgroups rp [] s
        = (Corpus rp,
           s\<lparr>touched := touched s @ [''fcc.pickle''],
             store := (store s)(''fcc.pickle'' \<mapsto> Corpus rp),
             memo := (memo s)(''get_newsgroups'' :=
                       (memo s ''get_newsgroups'')([] \<mapsto> Corpus rp))\<rparr>))
   \<and> (memo s ''default_anchors'' [] = Some c \<longrightarrow> default_anchors rp gs [] s = (c, s))
   \<and> (memo s ''default_anchors'' [] = None
        \<and> store s ''fcc-anchors-default.pickle'' = Some c \<longrightarrow>
      default_anchors rp gs [] s
        = (c, s\<lparr>touched := touched s @ [''fcc-anchors-default.pickle''],
                 memo := (memo s)(''default_anchors'' :=
                           (memo s ''default_anchors'')([] \<mapsto> c))\<rparr>))
   \<and> (memo s ''default_anchors'' [] = None
        \<and> store s ''fcc-anchors-default.pickle'' = None \<longrightarrow>
      default_anchors rp gs [] s
        = (case get_newsgroups rp []
                  (s\<lparr>touched := touched s @ [''fcc-anchors-default.pickle'']\<rparr>) of
             (dataset, s') \<Rightarrow>
               (Anchors (gs dataset 20 500),
                s'\<lparr>store := (store s')(''fcc-anchors-default.pickle''
                             \<mapsto> Anchors (gs dataset 20 500)),
                   memo := (memo s')(''default_anchors'' :=
                             (memo s' ''default_anchors'')
                               ([] \<mapsto> Anchors (gs dataset 20 500)))\<rparr>)))
   \<and> count_list (touched (run_calls (get_newsgroups rp) calls' s)) ''fcc.pickle''
        \<le> count_list (touched s) ''fcc.pickle''
           + card (set calls' - dom (memo s ''get_newsgroups''))
   \<and> count_list (touched (run_calls (default_anchors rp gs) calls' s))
          ''fcc-anchors-default.pickle''
        \<le> count_list (touched s) ''fcc-anchors-default.pickle''
           + card (set calls' - dom (memo s ''default_anchors''))
   \<and> count_list (touched (serve rp gs requests (fresh disk))) ''fcc.pickle'' \<le> 1
   \<and> count_list (touched (serve rp gs requests (fresh disk))) ''fcc-anchors-default.pickle''
        \<le> 1"
proof (intro conjI impI)
  show "memoize name (pickle_cache path g) args w = (v, w)"
    if "memo w name args = Some v"
    using that by (rule memoize_hit)
  show "memoize name (pickle_cache path g) args w
        = (v, w\<lparr>touched := touched w @ [path],
                 memo := (memo w)(name := (memo w name)(args \<mapsto> v))\<rparr>)"
    if "memo w name args = None \<and> store w path = Some v"
    using that by (intro memoize_miss_store_hit) simp_all
  show "count_list (touched (run_calls (memoize name (pickle_cache path g)) calls w)) path
        \<le> count_list (touched w) path + card (set calls - dom (memo w name))"
    if "keeps name path g"
    using that by (rule run_calls_bound)
  show "keeps ''get_newsgroups'' ''fcc.pickle'' (\<lambda>args w. (Corpus rp, w))"
    by (rule keeps_corpus)
  show "keeps ''default_anchors'' ''fcc-anchors-default.pickle''
        (\<lambda>args w. case get_newsgroups rp [] w of
                     (dataset, w') \<Rightarrow> (Anchors (gs dataset 20 500), w'))"
    by (rule keeps_anchors)
  show "get_newsgroups rp [] s = (c, s)" if "memo s ''get_newsgroups'' [] = Some c"
    using that by (rule get_newsgroups_hit)
  show "get_newsgroups rp [] s
        = (c, s\<lparr>touched := touched s @ [''fcc.pickle''],
                 memo := (memo s)(''get_newsgroups'' :=
                           (memo s ''get_newsgroups'')([] \<mapsto> c))\<rparr>)"
    if "memo s ''get_newsgroups'' [] = None \<and> store s ''fcc.pickle'' = Some c"
    using that by (intro get_newsgroups_store_hit) simp_all
  show "get_newsgroups rp [] s
        = (Corpus rp,
           s\<lparr>touched := touched s @ [''fcc.pickle''],
             store := (store s)(''fcc.pickle'' \<mapsto> Corpus rp),
             memo := (memo s)(''get_newsgroups'' :=
                       (memo s ''get_newsgroups'')([] \<mapsto> Corpus rp))\<rparr>)"
    if "memo s ''get_newsgroups'' [] = None \<and> store s ''fcc.pickle'' = None"
    using that by (intro get_newsgroups_build) simp_all
  show "default_anchors rp gs [] s = (c, s)" if "memo s ''default_anchors'' [] = Some c"
    using that by (rule default_anchors_hit)
  show "default_anchors rp gs [] s
        = (c, s\<lparr>touched := touched s @ [''fcc-anchors-default.pickle''],
                 memo := (memo s)(''default_anchors'' :=
                           (memo s ''default_anchors'')([] \<mapsto> c))\<rparr>)"
    if "memo s ''default_anchors'' [] = None
        \<and> store s ''fcc-anchors-default.pickle'' = Some c"
    using that by (intro default_anchors_store_hit) simp_all
  show "default_anchors rp gs [] s
        = (case get_newsgroups rp []
                  (s\<lparr>touched := touched s @ [''fcc-anchors-default.pickle'']\<rparr>) of
             (dataset, s') \<Rightarrow>
               (Anchors (gs dataset 20 500),
                s'\<lparr>store := (store s')(''fcc-anchors-default.pickle''
                             \<mapsto> Anchors (gs dataset 20 500)),
                   memo := (memo s')(''default_anchors'' :=
                             (memo s' ''default_anchors'')
                               ([] \<mapsto> Anchors (gs dataset 20 500)))\<rparr>))"
    if "memo s ''default_anchors'' [] = None
        \<and> store s ''fcc-anchors-default.pickle'' = None"
    using that by (intro default_anchors_build) simp_all
  show "count_list (touched (run_calls (get_newsgroups rp) calls' s)) ''fcc.pickle''
        \<le> count_list (touched s) ''fcc.pickle''
           + card (set calls' - dom (memo s ''get_newsgroups''))"
    by (rule get_newsgroups_calls)
  show "count_list (touched (run_calls (default_anchors rp gs) calls' s))
          ''fcc-anchors-default.pickle''
        \<le> count_list (touched s) ''fcc-anchors-default.pickle''
           + card (set calls' - dom (memo s ''default_anchors''))"
    by (rule default_anchors_calls)
  have "once (serve rp gs requests (fresh disk))"
    using once_fresh by (rule once_serve)
  then show "count_list (touched (serve rp gs requests (fresh disk))) ''fcc.pickle'' \<le> 1"
    and "count_list (touched (serve rp gs requests (fresh disk)))
           ''fcc-anchors-default.pickle'' \<le> 1"
    by (simp_all add: once_def)
qed

theorem cache_levels_witness:
  "memo (fresh ((\<lambda>n. None)(''fcc-anchors-default.pickle'' \<mapsto> Anchors (PList [PList [PInt 3]]))))
      ''default_anchors'' [] = None
   \<and> store (fresh ((\<lambda>n. None)(''fcc-anchors-default.pickle''
          \<mapsto> Anchors (PList [PList [PInt 3]]))))
      ''fcc-anchors-default.pickle'' = Some (Anchors (PList [PList [PInt 3]]))
   \<and> fst (default_anchors \<lparr>vocab = [''a'']\<rparr> (\<lambda>dataset n m. PList [PInt n, PInt m]) []
        (fresh ((\<lambda>n. None)(''fcc-anchors-default.pickle''
           \<mapsto> Anchors (PList [PList [PInt 3]])))))
       = Anchors (PList [PList [PInt 3]])
   \<and> memo (snd (default_anchors \<lparr>vocab = [''a'']\<rparr> (\<lambda>dataset n m. PList [PInt n, PInt m]) []
        (fresh ((\<lambda>n. None)(''fcc-anchors-default.pickle''
           \<mapsto> Anchors (PList [PList [PInt 3]]))))))
        ''default_anchors'' []
       = Some (Anchors (PList [PList [PInt 3]]))
   \<and> touched (snd (default_anchors \<lparr>vocab = [''a'']\<rparr> (\<lambda>dataset n m. PList [PInt n, PInt m]) []
        (fresh ((\<lambda>n. None)(''fcc-anchors-default.pickle''
           \<mapsto> Anchors (PList [PList [PInt 3]]))))))
       = [''fcc-anchors-default.pickle'']
   \<and> touched (snd (default_anchors \<lparr>vocab = [''a'']\<rparr> (\<lambda>dataset n m. PList [PInt n, PInt m]) []
        (snd (default_anchors \<lparr>vocab = [''a'']\<rparr> (\<lambda>dataset n m. PList [PInt n, PInt m]) []
          (fresh ((\<lambda>n. None)(''fcc-anchors-default.pickle''
             \<mapsto> Anchors (PList [PList [PInt 3]]))))))))
       = [''fcc-anchors-default.pickle'']
   \<and> fst (default_anchors \<lparr>vocab = [''a'']\<rparr> (\<lambda>dataset n m. PList [PInt n, PInt m]) []
        (fresh (\<lambda>n. None)))
       = Anchors (PList [PInt 20, PInt 500])
   \<and> touched (snd (default_anchors \<lparr>vocab = [''a'']\<rparr> (\<lambda>dataset n m. PList [PInt n, PInt m]) []
        (fresh (\<lambda>n. None))))
       = [''fcc-anchors-default.pickle'', ''fcc.pickle'']
   \<and> store (snd (get_newsgroups \<lparr>vocab = [''a'']\<rparr> [] (fresh (\<lambda>n. None)))) ''fcc.pickle''
       = Some (Corpus \<lparr>vocab = [''a'']\<rparr>)
   \<and> fst (get_newsgroups \<lparr>vocab = [''a'']\<rparr> []
        (fresh ((\<lambda>n. None)(''fcc.pickle'' \<mapsto> Corpus \<lparr>vocab = [''b'']\<rparr>))))
       = Corpus \<lparr>vocab = [''b'']\<rparr>
   \<and> touched (snd (get_newsgroups \<lparr>vocab = [''a'']\<rparr> []
        (snd (get_newsgroups \<lparr>vocab = [''a'']\<rparr> [] (fresh (\<lambda>n. None))))))
       = [''fcc.pickle'']
   \<and> keeps ''get_newsgroups'' ''fcc.pickle'' (\<lambda>args w. (Corpus \<lparr>vocab = [''a'']\<rparr>, w))
   \<and> count_list (touched (run_calls
          (memoize ''get_newsgroups'' (pickle_cache ''fcc.pickle''
             (\<lambda>args w. (Corpus \<lparr>vocab = [''a'']\<rparr>, w))))
          [[], [], []] (fresh (\<lambda>n. None)))) ''fcc.pickle'' \<le> 1
   \<and> count_list (touched (run_calls
          (default_anchors \<lparr>vocab = [''a'']\<rparr> (\<lambda>dataset n m. PList [PInt n, PInt m]))
          [[], [], []] (fresh (\<lambda>n. None)))) ''fcc-anchors-default.pickle'' \<le> 1"
proof -
  let ?a = "\<lparr>vocab = [''a'']\<rparr>" and ?b = "\<lparr>vocab = [''b'']\<rparr>"
  let ?gs = "\<lambda>(dataset :: cached) n m. PList [PInt n, PInt m]"
  let ?st = "Anchors (PList [PList [PInt 3]])"
  let ?g = "\<lambda>(args :: pyval list) (w :: cached world). (Corpus ?a, w)"
  let ?s0 = "fresh (\<lambda>n. None) :: cached world"
  let ?s2 = "fresh ((\<lambda>n. None)(''fcc-anchors-default.pickle'' \<mapsto> ?st))"
  let ?s3 = "snd (default_anchors ?a ?gs [] ?s2)"
  let ?s4 = "fresh ((\<lambda>n. None)(''fcc.pickle'' \<mapsto> Corpus ?b))"
  let ?s5 = "snd (get_newsgroups ?a [] ?s0)"
  \<comment> \<open>a persistent hit of the default anchors fills the cache of the process\<close>
  have h1: "memo ?s2 ''default_anchors'' [] = None" by (simp add: fresh_def)
  have h2: "store ?s2 ''fcc-anchors-default.pickle'' = Some ?st" by (simp add: fresh_def)
  note d2 = cache_levels [where s = ?s2 and c = ?st and rp = ?a and gs = ?gs,
      THEN conjunct2, THEN conjunct2, THEN conjunct2, THEN conjunct2, THEN conjunct2, THEN conjunct2, THEN conjunct2, THEN conjunct2, THEN conjunct2, THEN conjunct1, rule_format, OF conjI [OF h1 h2]]
  from d2 have r2: "default_anchors ?a ?gs [] ?s2
      = (?st, ?s2\<lparr>touched := touched ?s2 @ [''fcc-anchors-default.pickle''],
           memo := (memo ?s2)(''default_anchors'' :=
                     (memo ?s2 ''default_anchors'')([] \<mapsto> ?st))\<rparr>)" .
  then have c3: "fst (default_anchors ?a ?gs [] ?s2) = ?st"
    and c4: "memo ?s3 ''default_anchors'' [] = Some ?st"
    and c5: "touched ?s3 = [''fcc-anchors-default.pickle'']"
    by (simp_all add: fresh_def)
  \<comment> \<open>the next call hits the cache of the process and leaves the state as it is\<close>
  from cache_levels [where s = ?s3 and c = ?st and rp = ?a and gs = ?gs,
      THEN conjunct2, THEN conjunct2, THEN conjunct2, THEN conjunct2, THEN conjunct2, THEN conjunct2, THEN conjunct2, THEN conjunct2, THEN conjunct1, rule_format, OF c4]
  have "default_anchors ?a ?gs [] ?s3 = (?st, ?s3)" .
  with c5 have c6: "touched (snd (default_anchors ?a ?gs [] ?s3))
      = [''fcc-anchors-default.pickle'']" by simp
  \<comment> \<open>with nothing stored, both builders run and both files are written\<close>
  have h7: "memo ?s0 ''default_anchors'' [] = None" by (simp add: fresh_def)
  have h8: "store ?s0 ''fcc-anchors-default.pickle'' = None" by (simp add: fresh_def)
  from cache_levels [where s = ?s0 and rp = ?a and gs = ?gs,
      THEN conjunct2, THEN conjunct2, THEN conjunct2, THEN conjunct2, THEN conjunct2, THEN conjunct2, THEN conjunct2, THEN conjunct2, THEN conjunct2, THEN conjunct2, THEN conjunct1, rule_format, OF conjI [OF h7 h8]]
  have r7: "default_anchors ?a ?gs [] ?s0
      = (case get_newsgroups ?a []
                  (?s0\<lparr>touched := touched ?s0 @ [''fcc-anchors-default.pickle'']\<rparr>) of
             (dataset, s') \<Rightarrow>
               (Anchors (?gs dataset 20 500),
                s'\<lparr>store := (store s')(''fcc-anchors-default.pickle''
                             \<mapsto> Anchors (?gs dataset 20 500)),
                   memo := (memo s')(''default_anchors'' :=
                             (memo s' ''default_anchors'')
                               ([] \<mapsto> Anchors (?gs dataset 20 500)))\<rparr>))" .
  obtain d s' where gn: "get_newsgroups ?a []
        (?s0\<lparr>touched := touched ?s0 @ [''fcc-anchors-default.pickle'']\<rparr>) = (d, s')"
    by (rule prod.exhaust)
  have "touched (snd (get_newsgroups ?a []
        (?s0\<lparr>touched := touched ?s0 @ [''fcc-anchors-default.pickle'']\<rparr>)))
      = [''fcc-anchors-default.pickle'', ''fcc.pickle'']"
    by (simp add: get_newsgroups_def memoize_def pickle_cache_def fresh_def Let_def)
  then have inner: "touched s' = [''fcc-anchors-default.pickle'', ''fcc.pickle'']"
    unfolding gn by simp
  have c7: "fst (default_anchors ?a ?gs [] ?s0) = Anchors (PList [PInt 20, PInt 500])"
    unfolding r7 gn by simp
  have c8: "touched (snd (default_anchors ?a ?gs [] ?s0))
      = [''fcc-anchors-default.pickle'', ''fcc.pickle'']"
    unfolding r7 gn using inner by simp
  have h9: "memo ?s0 ''get_newsgroups'' [] = None" by (simp add: fresh_def)
  have h10: "store ?s0 ''fcc.pickle'' = None" by (simp add: fresh_def)
  from cache_levels [where s = ?s0 and rp = ?a,
      THEN conjunct2, THEN conjunct2, THEN conjunct2, THEN conjunct2, THEN conjunct2, THEN conjunct2, THEN conjunct2, THEN conjunct1, rule_format, OF conjI [OF h9 h10]]
  have r9: "get_newsgroups ?a [] ?s0
      = (Corpus ?a,
         ?s0\<lparr>touched := touched ?s0 @ [''fcc.pickle''],
             store := (store ?s0)(''fcc.pickle'' \<mapsto> Corpus ?a),
             memo := (memo ?s0)(''get_newsgroups'' :=
                       (memo ?s0 ''get_newsgroups'')([] \<mapsto> Corpus ?a))\<rparr>)" .
  then have c9: "store ?s5 ''fcc.pickle'' = Some (Corpus ?a)"
    and m5: "memo ?s5 ''get_newsgroups'' [] = Some (Corpus ?a)"
    and t5: "touched ?s5 = [''fcc.pickle'']"
    by (simp_all add: fresh_def)
  have h11: "memo ?s4 ''get_newsgroups'' [] = None" by (simp add: fresh_def)
  have h12: "store ?s4 ''fcc.pickle'' = Some (Corpus ?b)" by (simp add: fresh_def)
  from cache_levels [where s = ?s4 and c = "Corpus ?b" and rp = ?a,
      THEN conjunct2, THEN conjunct2, THEN conjunct2, THEN conjunct2, THEN conjunct2, THEN conjunct2, THEN conjunct1, rule_format, OF conjI [OF h11 h12]]
  have "get_newsgroups ?a [] ?s4
      = (Corpus ?b, ?s4\<lparr>touched := touched ?s4 @ [''fcc.pickle''],
           memo := (memo ?s4)(''get_newsgroups'' :=
                     (memo ?s4 ''get_newsgroups'')([] \<mapsto> Corpus ?b))\<rparr>)" .
  then have c10: "fst (get_newsgroups ?a [] ?s4) = Corpus ?b" by simp
  from cache_levels [where s = ?s5 and c = "Corpus ?a" and rp = ?a,
      THEN conjunct2, THEN conjunct2, THEN conjunct2, THEN conjunct2, THEN conjunct2, THEN conjunct1, rule_format, OF m5]
  have "get_newsgroups ?a [] ?s5 = (Corpus ?a, ?s5)" .
  with t5 have c11: "touched (snd (get_newsgroups ?a [] ?s5)) = [''fcc.pickle'']" by simp
  \<comment> \<open>three calls in a process consult each file once\<close>
  have k: "keeps ''get_newsgroups'' ''fcc.pickle'' ?g" by (rule keeps_corpus)
  from cache_levels [where w = ?s0 and name = "''get_newsgroups''"
      and path = "''fcc.pickle''" and g = ?g and calls = "[[], [], []]",
      THEN conjunct2, THEN conjunct2, THEN conjunct1, rule_format, OF k]
  have "count_list (touched (run_calls
          (memoize ''get_newsgroups'' (pickle_cache ''fcc.pickle'' ?g)) [[], [], []] ?s0))
          ''fcc.pickle''
     \<le> count_list (touched ?s0) ''fcc.pickle''
       + card (set [[], [], []] - dom (memo ?s0 ''get_newsgroups''))" .
  also have "\<dots> = 1" by (simp add: fresh_def)
  finally have c13: "count_list (touched (run_calls
          (memoize ''get_newsgroups'' (pickle_cache ''fcc.pickle'' ?g)) [[], [], []] ?s0))
          ''fcc.pickle'' \<le> 1" .
  from cache_levels [where s = ?s0 and rp = ?a and gs = ?gs and calls' = "[[], [], []]",
      THEN conjunct2, THEN conjunct2, THEN conjunct2, THEN conjunct2, THEN conjunct2, THEN conjunct2, THEN conjunct2, THEN conjunct2, THEN conjunct2, THEN conjunct2, THEN conjunct2, THEN conjunct2, THEN conjunct1]
  have "count_list (touched (run_calls (default_anchors ?a ?gs) [[], [], []] ?s0))
          ''fcc-anchors-default.pickle''
     \<le> count_list (touched ?s0) ''fcc-anchors-default.pickle''
       + card (set [[], [], []] - dom (memo ?s0 ''default_anchors''))" .
  also have "\<dots> = 1" by (simp add: fresh_def)
  finally have c14: "count_list (touched (run_calls (default_anchors ?a ?gs) [[], [], []] ?s0))
          ''fcc-anchors-default.pickle'' \<le> 1" .
  from h1 h2 c3 c4 c5 c6 c7 c8 c9 c10 c11 k c13 c14 show ?thesis by (intro conjI)
qed

end
